theory Spec2Isabelle
  imports Complex_Main
begin

section \<open>The road-network sketch cleaner of \<^verbatim>\<open>SIM/exec.py\<close>\<close>

text \<open>
  The class \<^verbatim>\<open>RoadNetworkCleaner\<close> classifies the pixels of a skeleton raster
  (\<^verbatim>\<open>find_network_points\<close>) and erases short dead-end stubs
  (\<^verbatim>\<open>remove_spurious_roads\<close>, \<^verbatim>\<open>get_path\<close>).

  A numpy boolean array of two dimensions is a list of rows, \<open>a ! y ! x\<close> being
  \<^verbatim>\<open>a[y, x]\<close>. Python integers are \<open>int\<close>; array extents and loop indices that start at
  \<open>1\<close> are \<open>nat\<close>. The distance \<^verbatim>\<open>np.sqrt(...)\<close> and its comparisons are taken in exact
  real arithmetic, and \<^verbatim>\<open>float("inf")\<close> is \<open>None\<close> of \<open>real option\<close>.
  The minimum-cost search \<^verbatim>\<open>skimage.graph.route_through_array\<close> is a library routine
  outside the repository: it is a parameter of the model, a function of the cost array and
  the two end points that either raises or returns a list of \<open>(y, x)\<close> indices.
\<close>

subsection \<open>Data\<close>

type_synonym raster = "bool list list"

type_synonym point = "int \<times> int"

type_synonym addr = nat

datatype exn = IndexError | ValueError | OtherException

text \<open>The attributes of a \<^verbatim>\<open>RoadNetworkCleaner\<close> once \<^verbatim>\<open>process_sketch\<close> has stored the
  shape of the image in \<^verbatim>\<open>self.height\<close> and \<^verbatim>\<open>self.width\<close>.\<close>

record cleaner =
  min_road_length :: real
  intersection_radius :: int
  height :: nat
  width :: nat

text \<open>Arrays are objects: the store is the list of all arrays allocated so far, an array's
  address is its position, and an allocation appends. The trace records, in order, the
  calls of \<^verbatim>\<open>get_path\<close>, the element assignments and the warnings printed.\<close>

datatype event = GetPath point point | Assign addr int int | Warning

record state =
  heap :: "raster list"
  trace :: "event list"

type_synonym router = "raster \<Rightarrow> point \<Rightarrow> point \<Rightarrow> exn + point list"

subsection \<open>Array primitives\<close>

definition np_shape :: "raster \<Rightarrow> nat \<times> nat" where
  "np_shape a = (length a, if a = [] then 0 else length (hd a))"

text \<open>\<^verbatim>\<open>np.pad(a, pad_width=1, mode="constant", constant_values=0)\<close>\<close>

definition np_pad :: "raster \<Rightarrow> raster" where
  "np_pad a =
     (let w = snd (np_shape a)
      in replicate (w + 2) False # map (\<lambda>row. False # row @ [False]) a @ [replicate (w + 2) False])"

text \<open>\<^verbatim>\<open>a[y, x]\<close> at indices that are not negative.\<close>

definition getitem :: "raster \<Rightarrow> nat \<Rightarrow> nat \<Rightarrow> exn + bool" where
  "getitem a y x =
     (if y < length a \<and> x < length (a ! y) then Inr (a ! y ! x) else Inl IndexError)"

text \<open>\<^verbatim>\<open>a[y0:y1, x0:x1]\<close> at bounds that are not negative: a slice is cut at the array's end.\<close>

definition np_slice :: "raster \<Rightarrow> nat \<Rightarrow> nat \<Rightarrow> nat \<Rightarrow> nat \<Rightarrow> raster" where
  "np_slice a y0 y1 x0 x1 = map (\<lambda>row. take (x1 - x0) (drop x0 row)) (take (y1 - y0) (drop y0 a))"

text \<open>\<^verbatim>\<open>a.sum()\<close> of a boolean array: the number of true cells.\<close>

definition np_sum :: "raster \<Rightarrow> int" where
  "np_sum a = (\<Sum>row\<leftarrow>a. \<Sum>b\<leftarrow>row. (if b then 1 else 0))"

text \<open>An index \<open>i\<close> into an axis of extent \<open>n\<close>: numpy counts a negative index from the end.\<close>

definition np_index :: "nat \<Rightarrow> int \<Rightarrow> nat option" where
  "np_index n i =
     (if 0 \<le> i \<and> i < int n then Some (nat i)
      else if - int n \<le> i \<and> i < 0 then Some (nat (int n + i))
      else None)"

text \<open>\<^verbatim>\<open>skeleton.copy()\<close> and \<^verbatim>\<open>~skeleton\<close> allocate a new array.\<close>

definition np_copy :: "addr \<Rightarrow> state \<Rightarrow> addr \<times> state" where
  "np_copy a s = (length (heap s), s\<lparr>heap := heap s @ [heap s ! a]\<rparr>)"

definition np_invert :: "addr \<Rightarrow> state \<Rightarrow> addr \<times> state" where
  "np_invert a s = (length (heap s), s\<lparr>heap := heap s @ [map (map Not) (heap s ! a)]\<rparr>)"

text \<open>\<^verbatim>\<open>a[py, px] = v\<close> writes in place, or raises and writes nothing.\<close>

definition setitem :: "addr \<Rightarrow> int \<Rightarrow> int \<Rightarrow> bool \<Rightarrow> state \<Rightarrow> exn + state" where
  "setitem a py px v s =
     (let r = heap s ! a
      in case np_index (length r) py of
           None \<Rightarrow> Inl IndexError
         | Some y \<Rightarrow>
             (case np_index (length (r ! y)) px of
                None \<Rightarrow> Inl IndexError
              | Some x \<Rightarrow>
                  Inr (s\<lparr>heap := (heap s)[a := r[y := (r ! y)[x := v]]],
                         trace := trace s @ [Assign a py px]\<rparr>)))"

subsection \<open>\<^verbatim>\<open>find_network_points\<close>\<close>

text \<open>The body of the inner loop, for one \<open>x\<close>, and the two loops. The accumulator is the pair
  of lists \<^verbatim>\<open>endpoints\<close>, \<^verbatim>\<open>intersections\<close>; \<^verbatim>\<open>padded[y, x]\<close> raises out of range.\<close>

definition classify_pixel ::
    "raster \<Rightarrow> nat \<Rightarrow> nat \<Rightarrow> point list \<times> point list \<Rightarrow> exn + point list \<times> point list" where
  "classify_pixel padded y x acc =
     (case getitem padded y x of
        Inl e \<Rightarrow> Inl e
      | Inr b \<Rightarrow>
          if b then
            (let neighbors = np_sum (np_slice padded (y - 1) (y + 2) (x - 1) (x + 2)) - 1
             in if neighbors = 1 then Inr (fst acc @ [(int x - 1, int y - 1)], snd acc)
                else if neighbors > 2 then Inr (fst acc, snd acc @ [(int x - 1, int y - 1)])
                else Inr acc)
          else Inr acc)"

fun scan_row ::
    "raster \<Rightarrow> nat \<Rightarrow> nat list \<Rightarrow> point list \<times> point list \<Rightarrow> exn + point list \<times> point list" where
  "scan_row padded y [] acc = Inr acc"
| "scan_row padded y (x # xs) acc =
     (case classify_pixel padded y x acc of
        Inl e \<Rightarrow> Inl e
      | Inr acc' \<Rightarrow> scan_row padded y xs acc')"

fun scan_rows ::
    "cleaner \<Rightarrow> raster \<Rightarrow> nat list \<Rightarrow> point list \<times> point list \<Rightarrow> exn + point list \<times> point list" where
  "scan_rows c padded [] acc = Inr acc"
| "scan_rows c padded (y # ys) acc =
     (case scan_row padded y [1 ..< width c + 1] acc of
        Inl e \<Rightarrow> Inl e
      | Inr acc' \<Rightarrow> scan_rows c padded ys acc')"

definition find_network_points :: "cleaner \<Rightarrow> raster \<Rightarrow> exn + point list \<times> point list" where
  "find_network_points c skeleton =
     (let padded = np_pad skeleton
      in scan_rows c padded [1 ..< height c + 1] ([], []))"

text \<open>The count that \<open>classify_pixel\<close> computes at the padded position \<open>(y, x)\<close>, and the
  coordinates that one row of the scan appends to a list whose test on the count is \<open>sel\<close>.\<close>

definition window_count :: "raster \<Rightarrow> nat \<Rightarrow> nat \<Rightarrow> int" where
  "window_count padded y x = np_sum (np_slice padded (y - 1) (y + 2) (x - 1) (x + 2)) - 1"

definition reported :: "raster \<Rightarrow> (int \<Rightarrow> bool) \<Rightarrow> nat \<Rightarrow> nat list \<Rightarrow> point list" where
  "reported padded sel y xs =
     map (\<lambda>x. (int x - 1, int y - 1))
       (filter (\<lambda>x. padded ! y ! x \<and> sel (window_count padded y x)) xs)"

subsection \<open>\<^verbatim>\<open>get_path\<close> and \<^verbatim>\<open>remove_spurious_roads\<close>\<close>

text \<open>\<^verbatim>\<open>get_path\<close> builds the cost array, converts both points to \<open>(y, x)\<close> and calls the
  search; whatever the search raises is caught, a warning is printed and the path is empty.\<close>

definition get_path :: "router \<Rightarrow> addr \<Rightarrow> point \<Rightarrow> point \<Rightarrow> state \<Rightarrow> point list \<times> state" where
  "get_path route_through_array skeleton start goal s =
     (let s0 = s\<lparr>trace := trace s @ [GetPath start goal]\<rparr>;
          (cost_array, s1) = np_invert skeleton s0
      in case route_through_array (heap s1 ! cost_array) (snd start, fst start) (snd goal, fst goal) of
           Inr indices \<Rightarrow> (indices, s1)
         | Inl e \<Rightarrow> ([], s1\<lparr>trace := trace s1 @ [Warning]\<rparr>))"

text \<open>The distance of an endpoint to an intersection, and the search for the closest one.
  \<open>closest_dist\<close> is \<open>None\<close> while it is infinite.\<close>

definition distance :: "point \<Rightarrow> point \<Rightarrow> real" where
  "distance endpoint intersection =
     sqrt (real_of_int ((fst endpoint - fst intersection)\<^sup>2 + (snd endpoint - snd intersection)\<^sup>2))"

definition less_dist :: "real \<Rightarrow> real option \<Rightarrow> bool" where
  "less_dist d closest_dist = (case closest_dist of None \<Rightarrow> True | Some cd \<Rightarrow> d < cd)"

fun closest_intersection ::
    "point \<Rightarrow> point list \<Rightarrow> real option \<times> point option \<Rightarrow> real option \<times> point option" where
  "closest_intersection endpoint [] best = best"
| "closest_intersection endpoint (intersection # rest) best =
     (let dist = distance endpoint intersection
      in if less_dist dist (fst best)
         then closest_intersection endpoint rest (Some dist, Some intersection)
         else closest_intersection endpoint rest best)"

text \<open>The loop over the path: an index pair outside \<open>[0, height) \<times> [0, width)\<close> is skipped.
  An assignment that raises ends the loop with what has been written so far.\<close>

fun erase_path :: "cleaner \<Rightarrow> addr \<Rightarrow> point list \<Rightarrow> state \<Rightarrow> exn \<times> state + state" where
  "erase_path c cleaned [] s = Inr s"
| "erase_path c cleaned ((py, px) # path) s =
     (if 0 \<le> py \<and> py < int (height c) \<and> 0 \<le> px \<and> px < int (width c) then
        (case setitem cleaned py px False s of
           Inl e \<Rightarrow> Inl (e, s)
         | Inr s' \<Rightarrow> erase_path c cleaned path s')
      else erase_path c cleaned path s)"

text \<open>The body of the loop over the endpoints. \<open>closest_dist < self.min_road_length\<close> is
  false while \<open>closest_dist\<close> is infinite. What the assignment raises is caught by the
  \<^verbatim>\<open>except\<close> clause, which prints a warning, and the loop goes on.\<close>

definition below :: "real option \<Rightarrow> real \<Rightarrow> bool" where
  "below closest_dist t = (case closest_dist of None \<Rightarrow> False | Some d \<Rightarrow> d < t)"

definition prune_endpoint ::
    "cleaner \<Rightarrow> router \<Rightarrow> addr \<Rightarrow> point list \<Rightarrow> addr \<Rightarrow> point \<Rightarrow> state \<Rightarrow> state" where
  "prune_endpoint c route_through_array skeleton intersections cleaned endpoint s =
     (let (closest_dist, closest_int) = closest_intersection endpoint intersections (None, None)
      in if below closest_dist (min_road_length c) \<and> closest_int \<noteq> None then
           (let (path, s1) = get_path route_through_array skeleton endpoint (the closest_int) s
            in case erase_path c cleaned path s1 of
                 Inr s2 \<Rightarrow> s2
               | Inl (e, s2) \<Rightarrow> s2\<lparr>trace := trace s2 @ [Warning]\<rparr>)
         else s)"

fun prune_endpoints ::
    "cleaner \<Rightarrow> router \<Rightarrow> addr \<Rightarrow> point list \<Rightarrow> addr \<Rightarrow> point list \<Rightarrow> state \<Rightarrow> state" where
  "prune_endpoints c route_through_array skeleton intersections cleaned [] s = s"
| "prune_endpoints c route_through_array skeleton intersections cleaned (endpoint # endpoints) s =
     prune_endpoints c route_through_array skeleton intersections cleaned endpoints
       (prune_endpoint c route_through_array skeleton intersections cleaned endpoint s)"

definition remove_spurious_roads ::
    "cleaner \<Rightarrow> router \<Rightarrow> addr \<Rightarrow> point list \<Rightarrow> point list \<Rightarrow> state \<Rightarrow> addr \<times> state" where
  "remove_spurious_roads c route_through_array skeleton endpoints intersections s =
     (let (cleaned, s1) = np_copy skeleton s
      in (cleaned, prune_endpoints c route_through_array skeleton intersections cleaned endpoints s1))"

subsection \<open>Notions used in the statements\<close>

text \<open>The pixel at column \<open>x\<close>, row \<open>y\<close> is foreground; outside the array nothing is.\<close>

definition foreground :: "raster \<Rightarrow> int \<Rightarrow> int \<Rightarrow> bool" where
  "foreground a x y =
     (0 \<le> y \<and> nat y < length a \<and> 0 \<le> x \<and> nat x < length (a ! nat y) \<and> a ! nat y ! nat x)"

text \<open>An array of \<open>h\<close> rows of \<open>w\<close> cells each.\<close>

definition is_raster :: "nat \<Rightarrow> nat \<Rightarrow> raster \<Rightarrow> bool" where
  "is_raster h w a = (length a = h \<and> list_all (\<lambda>row. length row = w) a)"

text \<open>The count of foreground cells among the eight cells that surround \<open>(x, y)\<close>, a cell
  outside the array counting as background: the neighbour count in the words of the
  specification, to be compared with what \<open>classify_pixel\<close> computes on the padded array.\<close>

definition surrounding :: "point list" where
  "surrounding = [(-1, -1), (0, -1), (1, -1), (-1, 0), (1, 0), (-1, 1), (0, 1), (1, 1)]"

definition neighbor_count :: "raster \<Rightarrow> int \<Rightarrow> int \<Rightarrow> int" where
  "neighbor_count a x y =
     int (length (filter (\<lambda>d. foreground a (x + fst d) (y + snd d)) surrounding))"


text \<open>The state a step may lead to from \<open>s\<close> when the only array it writes is the one at \<open>a\<close>
  and it only ever clears cells there: arrays may have been allocated, every other array
  that existed is as it was, and the array at \<open>a\<close> has kept its shape and gained no
  foreground.\<close>

definition only_erased :: "addr \<Rightarrow> state \<Rightarrow> state \<Rightarrow> bool" where
  "only_erased a s s' =
     (length (heap s) \<le> length (heap s') \<and>
      (\<forall>b < length (heap s). b \<noteq> a \<longrightarrow> heap s' ! b = heap s ! b) \<and>
      map length (heap s' ! a) = map length (heap s ! a) \<and>
      (\<forall>x y. foreground (heap s' ! a) x y \<longrightarrow> foreground (heap s ! a) x y))"

text \<open>The intersection that the loop body hands to \<^verbatim>\<open>get_path\<close>, if it calls it; what the
  loop over a path does to the value of the array it writes; the path the loop body erases
  for an endpoint when the skeleton has the value \<open>a\<close>; and the value of the cleaned array
  after the loop over the endpoints, started at \<open>b\<close>. They describe the results of
  \<open>prune_endpoint\<close>, \<open>erase_path\<close> and \<open>prune_endpoints\<close> without the store.\<close>

definition chosen :: "cleaner \<Rightarrow> point list \<Rightarrow> point \<Rightarrow> point option" where
  "chosen c intersections endpoint =
     (case closest_intersection endpoint intersections (None, None) of
        (Some d, Some ci) \<Rightarrow> if d < min_road_length c then Some ci else None
      | _ \<Rightarrow> None)"

fun erase_cells :: "cleaner \<Rightarrow> raster \<Rightarrow> point list \<Rightarrow> raster" where
  "erase_cells c a [] = a"
| "erase_cells c a ((py, px) # path) =
     (if 0 \<le> py \<and> py < int (height c) \<and> 0 \<le> px \<and> px < int (width c) then
        (case np_index (length a) py of
           None \<Rightarrow> a
         | Some y \<Rightarrow>
             (case np_index (length (a ! y)) px of
                None \<Rightarrow> a
              | Some x \<Rightarrow> erase_cells c (a[y := (a ! y)[x := False]]) path))
      else erase_cells c a path)"

definition route_for :: "cleaner \<Rightarrow> router \<Rightarrow> raster \<Rightarrow> point list \<Rightarrow> point \<Rightarrow> point list" where
  "route_for c route_through_array a intersections endpoint =
     (case chosen c intersections endpoint of
        None \<Rightarrow> []
      | Some ci \<Rightarrow>
          (case route_through_array (map (map Not) a) (snd endpoint, fst endpoint) (snd ci, fst ci) of
             Inr indices \<Rightarrow> indices
           | Inl e \<Rightarrow> []))"

fun pruned :: "cleaner \<Rightarrow> router \<Rightarrow> raster \<Rightarrow> point list \<Rightarrow> point list \<Rightarrow> raster \<Rightarrow> raster" where
  "pruned c r a intersections [] b = b"
| "pruned c r a intersections (endpoint # endpoints) b =
     pruned c r a intersections endpoints (erase_cells c b (route_for c r a intersections endpoint))"

text \<open>The endpoints for which \<^verbatim>\<open>get_path\<close> was called, in the order of the calls.\<close>

fun get_path_calls :: "event list \<Rightarrow> point list" where
  "get_path_calls [] = []"
| "get_path_calls (GetPath start goal # es) = start # get_path_calls es"
| "get_path_calls (e # es) = get_path_calls es"

text \<open>Events that are warnings or assignments to the array at \<open>cleaned\<close> at indices within
  \<open>[0, height) \<times> [0, width)\<close>.\<close>

definition quiet :: "cleaner \<Rightarrow> addr \<Rightarrow> event list \<Rightarrow> bool" where
  "quiet c cleaned evs =
     (\<forall>ev\<in>set evs. ev = Warning \<or>
        (\<exists>py px. ev = Assign cleaned py px \<and>
           0 \<le> py \<and> py < int (height c) \<and> 0 \<le> px \<and> px < int (width c)))"

text \<open>The state in which an \<^verbatim>\<open>erase_path\<close> loop stops, whether it raised or not.\<close>

definition final_state :: "exn \<times> state + state \<Rightarrow> state" where
  "final_state r = (case r of Inl (e, s) \<Rightarrow> s | Inr s \<Rightarrow> s)"

subsection \<open>A concrete raster\<close>

text \<open>The 10 by 10 raster whose foreground is the line from \<open>(1, 5)\<close> to \<open>(8, 5)\<close> and the stub
  from \<open>(4, 5)\<close> up to \<open>(4, 2)\<close>, a cleaner for it with \<^verbatim>\<open>min_road_length = 4\<close>, and a store
  that holds this one array.\<close>

definition tee_skeleton :: raster where
  "tee_skeleton =
     [[False, False, False, False, False, False, False, False, False, False],
      [False, False, False, False, False, False, False, False, False, False],
      [False, False, False, False, True,  False, False, False, False, False],
      [False, False, False, False, True,  False, False, False, False, False],
      [False, False, False, False, True,  False, False, False, False, False],
      [False, True,  True,  True,  True,  True,  True,  True,  True,  False],
      [False, False, False, False, False, False, False, False, False, False],
      [False, False, False, False, False, False, False, False, False, False],
      [False, False, False, False, False, False, False, False, False, False],
      [False, False, False, False, False, False, False, False, False, False]]"

definition tee_cleaner :: cleaner where
  "tee_cleaner = \<lparr>min_road_length = 4, intersection_radius = 5, height = 10, width = 10\<rparr>"

definition tee_state :: state where
  "tee_state = \<lparr>heap = [tee_skeleton], trace = []\<rparr>"

text \<open>Two searches to run the model on: one that walks from the start towards the goal, a
  step along each axis that still differs, and one that always raises.\<close>

fun walk :: "nat \<Rightarrow> point \<Rightarrow> point \<Rightarrow> point list" where
  "walk 0 p q = [p]"
| "walk (Suc n) p q =
     (if p = q then [p]
      else p # walk n (fst p + sgn (fst q - fst p), snd p + sgn (snd q - snd p)) q)"

definition walking_router :: router where
  "walking_router cost start goal =
     Inr (walk (nat (max \<bar>fst goal - fst start\<bar> \<bar>snd goal - snd start\<bar>)) start goal)"


text \<open>A raster of one row, a cleaner for it, and a search whose answer leaves the raster:
  three of the six index pairs it returns are out of range.\<close>

definition bar_skeleton :: raster where
  "bar_skeleton = [[True, True, True]]"

definition bar_cleaner :: cleaner where
  "bar_cleaner = \<lparr>min_road_length = 5, intersection_radius = 5, height = 1, width = 3\<rparr>"

definition bar_state :: state where
  "bar_state = \<lparr>heap = [bar_skeleton], trace = []\<rparr>"

definition overshooting_router :: router where
  "overshooting_router cost start goal = Inr [start, (0, 1), goal, (0, 3), (- 1, 0), (1, 1)]"

text \<open>What a minimum-cost search returns when start and goal are joined by cells of cost
  zero: a route from start to goal that visits no cell twice, moves to one of the eight
  surrounding cells at each step and stays on cells of the array whose cost is
  \<open>False\<close>.\<close>

definition free_cell :: "raster \<Rightarrow> point \<Rightarrow> bool" where
  "free_cell cost p =
     (0 \<le> fst p \<and> nat (fst p) < length cost \<and> 0 \<le> snd p \<and>
      nat (snd p) < length (cost ! nat (fst p)) \<and> \<not> cost ! nat (fst p) ! nat (snd p))"

fun stepwise :: "point list \<Rightarrow> bool" where
  "stepwise (p # q # ps) = (max \<bar>fst q - fst p\<bar> \<bar>snd q - snd p\<bar> = 1 \<and> stepwise (q # ps))"
| "stepwise ps = True"

definition free_route :: "raster \<Rightarrow> point \<Rightarrow> point \<Rightarrow> point list \<Rightarrow> bool" where
  "free_route cost start goal path =
     (path \<noteq> [] \<and> hd path = start \<and> last path = goal \<and> distinct path \<and> stepwise path \<and>
      list_all (free_cell cost) path)"

definition around :: "point \<Rightarrow> point list" where
  "around p = map (\<lambda>d. (fst p + fst d, snd p + snd d)) surrounding"

text \<open>The raster of the concrete scenario with every foreground pixel but \<open>(4, 5)\<close> cleared.\<close>

definition tee_cleaned :: raster where
  "tee_cleaned =
     [[False, False, False, False, False, False, False, False, False, False],
      [False, False, False, False, False, False, False, False, False, False],
      [False, False, False, False, False, False, False, False, False, False],
      [False, False, False, False, False, False, False, False, False, False],
      [False, False, False, False, False, False, False, False, False, False],
      [False, False, False, False, True,  False, False, False, False, False],
      [False, False, False, False, False, False, False, False, False, False],
      [False, False, False, False, False, False, False, False, False, False],
      [False, False, False, False, False, False, False, False, False, False],
      [False, False, False, False, False, False, False, False, False, False]]"

section \<open>Lemmas\<close>

subsection \<open>What pruning may change in the store\<close>

lemma only_erased_refl: "only_erased a s s"
  by (simp add: only_erased_def)

lemma only_erased_trans:
  "only_erased a s t \<Longrightarrow> only_erased a t u \<Longrightarrow> only_erased a s u"
  unfolding only_erased_def by auto

lemma only_erased_trace: "only_erased a s (s\<lparr>trace := t\<rparr>)"
  by (simp add: only_erased_def)

lemma only_erased_alloc:
  "a < length (heap s) \<Longrightarrow> only_erased a s (s\<lparr>heap := heap s @ [r]\<rparr>)"
  by (simp add: only_erased_def nth_append)

lemma foreground_clear:
  "foreground (r[y := (r ! y)[x := False]]) i j \<Longrightarrow> foreground r i j"
  unfolding foreground_def
  by (cases "nat j = y"; cases "nat i = x") (auto simp: nth_list_update split: if_splits)

lemma map_length_clear:
  "map length (r[y := (r ! y)[x := v]]) = map length r"
  by (cases "y < length r") (simp_all add: map_update list_update_same_conv list_update_beyond)

lemma setitem_only_erased:
  assumes "setitem a py px False s = Inr s'"
  shows "only_erased a s s'"
proof -
  from assms obtain y x where
    s': "s' = s\<lparr>heap := (heap s)[a := (heap s ! a)[y := (heap s ! a ! y)[x := False]]],
               trace := trace s @ [Assign a py px]\<rparr>"
    by (auto simp: setitem_def Let_def split: option.splits)
  show ?thesis
  proof (cases "a < length (heap s)")
    case True
    have "\<And>i j. foreground (heap s' ! a) i j \<Longrightarrow> foreground (heap s ! a) i j"
      using True by (simp add: s') (rule foreground_clear)
    moreover have "map length (heap s' ! a) = map length (heap s ! a)"
      using True by (simp add: s' map_length_clear)
    ultimately show ?thesis
      unfolding only_erased_def by (simp add: s')
  next
    case False
    then show ?thesis
      unfolding only_erased_def s' by (simp add: list_update_beyond)
  qed
qed

lemma erase_path_only_erased:
  "only_erased cleaned s (final_state (erase_path c cleaned path s))"
proof (induction path arbitrary: s)
  case Nil
  show ?case by (simp add: final_state_def only_erased_refl)
next
  case (Cons p path)
  obtain py px where p: "p = (py, px)" by (cases p)
  show ?case
  proof (cases "0 \<le> py \<and> py < int (height c) \<and> 0 \<le> px \<and> px < int (width c)")
    case False
    then show ?thesis using Cons.IH [of s] by (auto simp: p)
  next
    case True
    show ?thesis
    proof (cases "setitem cleaned py px False s")
      case (Inl e)
      with True show ?thesis by (simp add: p final_state_def only_erased_refl)
    next
      case (Inr s')
      from Inr have "only_erased cleaned s s'" by (rule setitem_only_erased)
      moreover have "only_erased cleaned s' (final_state (erase_path c cleaned path s'))"
        by (rule Cons.IH)
      ultimately show ?thesis using True Inr
        by (simp add: p) (rule only_erased_trans)
    qed
  qed
qed

lemma get_path_only_erased:
  assumes "cleaned < length (heap s)"
  shows "only_erased cleaned s (snd (get_path r skeleton start goal s))"
  using assms
  by (auto simp: get_path_def np_invert_def Let_def only_erased_def nth_append split: sum.splits)

lemma prune_endpoint_only_erased:
  assumes "cleaned < length (heap s)"
  shows "only_erased cleaned s (prune_endpoint c r skeleton ints cleaned e s)"
proof -
  obtain cd ci where cl: "closest_intersection e ints (None, None) = (cd, ci)" by force
  show ?thesis
  proof (cases "below cd (min_road_length c) \<and> ci \<noteq> None")
    case False
    then show ?thesis
      by (auto simp: prune_endpoint_def cl only_erased_refl)
  next
    case True
    obtain path s1 where gp: "get_path r skeleton e (the ci) s = (path, s1)" by force
    have 1: "only_erased cleaned s s1"
      using get_path_only_erased [OF assms, of r skeleton e "the ci"] gp by simp
    have 2: "only_erased cleaned s1 (final_state (erase_path c cleaned path s1))"
      by (rule erase_path_only_erased)
    have 3: "only_erased cleaned s (final_state (erase_path c cleaned path s1))"
      using 1 2 by (rule only_erased_trans)
    have "prune_endpoint c r skeleton ints cleaned e s =
        (case erase_path c cleaned path s1 of Inr s2 \<Rightarrow> s2
         | Inl (e, s2) \<Rightarrow> s2\<lparr>trace := trace s2 @ [Warning]\<rparr>)"
      using True by (simp add: prune_endpoint_def cl gp)
    then show ?thesis using 3
      by (auto simp: final_state_def only_erased_def split: sum.splits)
  qed
qed

lemma prune_endpoints_only_erased:
  "cleaned < length (heap s) \<Longrightarrow>
   only_erased cleaned s (prune_endpoints c r skeleton ints cleaned eps s)"
proof (induction eps arbitrary: s)
  case Nil
  show ?case by (simp add: only_erased_refl)
next
  case (Cons e eps)
  let ?s1 = "prune_endpoint c r skeleton ints cleaned e s"
  have 1: "only_erased cleaned s ?s1"
    using Cons.prems by (rule prune_endpoint_only_erased)
  then have "cleaned < length (heap ?s1)"
    using Cons.prems by (simp add: only_erased_def)
  then have "only_erased cleaned ?s1 (prune_endpoints c r skeleton ints cleaned eps ?s1)"
    by (rule Cons.IH)
  with 1 show ?case by (simp, rule only_erased_trans)
qed


lemma remove_spurious_roads_only_erased:
  assumes "skeleton < length (heap s)"
      and "remove_spurious_roads c r skeleton eps ints s = (cleaned, s')"
  shows "cleaned = length (heap s)"
    and "only_erased cleaned (s\<lparr>heap := heap s @ [heap s ! skeleton]\<rparr>) s'"
proof -
  let ?s1 = "s\<lparr>heap := heap s @ [heap s ! skeleton]\<rparr>"
  from assms(2) show c: "cleaned = length (heap s)"
    by (auto simp: remove_spurious_roads_def np_copy_def)
  from assms(2) have s': "s' = prune_endpoints c r skeleton ints cleaned eps ?s1"
    by (auto simp: remove_spurious_roads_def np_copy_def)
  have "cleaned < length (heap ?s1)" by (simp add: c)
  then show "only_erased cleaned ?s1 s'"
    unfolding s' by (rule prune_endpoints_only_erased)
qed

lemma closest_intersection_Nil: "closest_intersection e [] best = best"
  by simp

lemma prune_endpoint_no_intersections:
  "prune_endpoint c r skeleton [] cleaned e s = s"
  by (simp add: prune_endpoint_def below_def)

lemma prune_endpoints_no_intersections:
  "prune_endpoints c r skeleton [] cleaned eps s = s"
  by (induction eps arbitrary: s) (simp_all add: prune_endpoint_no_intersections)

subsection \<open>The scan of the padded array\<close>

lemma classify_pixel_in_range:
  assumes "y < length padded" "x < length (padded ! y)"
  shows "classify_pixel padded y x acc =
     Inr (fst acc @ reported padded (\<lambda>n. n = 1) y [x], snd acc @ reported padded (\<lambda>n. 2 < n) y [x])"
  using assms
  by (simp add: classify_pixel_def getitem_def reported_def window_count_def Let_def)

lemma reported_Cons:
  "reported padded sel y (x # xs) = reported padded sel y [x] @ reported padded sel y xs"
  by (simp add: reported_def)

lemma scan_row_in_range:
  assumes "y < length padded" "\<forall>x\<in>set xs. x < length (padded ! y)"
  shows "scan_row padded y xs acc =
     Inr (fst acc @ reported padded (\<lambda>n. n = 1) y xs, snd acc @ reported padded (\<lambda>n. 2 < n) y xs)"
  using assms(2)
proof (induction xs arbitrary: acc)
  case Nil
  show ?case by (simp add: reported_def)
next
  case (Cons x xs)
  from Cons.prems have x: "x < length (padded ! y)" and xs: "\<forall>x\<in>set xs. x < length (padded ! y)"
    by simp_all
  show ?case
    by (simp only: scan_row.simps classify_pixel_in_range [OF assms(1) x] sum.case
        Cons.IH [OF xs] fst_conv snd_conv append_assoc
        reported_Cons [of padded _ y x xs])
qed

lemma scan_rows_in_range:
  assumes "\<forall>y\<in>set ys. y < length padded \<and> (\<forall>x\<in>set [1 ..< width c + 1]. x < length (padded ! y))"
  shows "scan_rows c padded ys acc =
     Inr (fst acc @ concat (map (\<lambda>y. reported padded (\<lambda>n. n = 1) y [1 ..< width c + 1]) ys),
          snd acc @ concat (map (\<lambda>y. reported padded (\<lambda>n. 2 < n) y [1 ..< width c + 1]) ys))"
  using assms
proof (induction ys arbitrary: acc)
  case Nil
  show ?case by simp
next
  case (Cons y ys)
  from Cons.prems have y: "y < length padded" "\<forall>x\<in>set [1 ..< width c + 1]. x < length (padded ! y)"
    and ys: "\<forall>y\<in>set ys. y < length padded \<and> (\<forall>x\<in>set [1 ..< width c + 1]. x < length (padded ! y))"
    by simp_all
  show ?case
    by (simp only: scan_rows.simps scan_row_in_range [OF y] sum.case Cons.IH [OF ys]
        fst_conv snd_conv append_assoc list.map concat.simps)
qed

lemma is_raster_nth: "is_raster h w a \<Longrightarrow> y < h \<Longrightarrow> length (a ! y) = w"
  by (auto simp: is_raster_def list_all_length)

lemma np_pad_length: "is_raster h w a \<Longrightarrow> length (np_pad a) = h + 2"
  by (simp add: np_pad_def is_raster_def Let_def)

lemma np_shape_raster: "is_raster h w a \<Longrightarrow> 0 < h \<Longrightarrow> np_shape a = (h, w)"
  by (cases a) (auto simp: np_shape_def is_raster_def)

lemma np_pad_row_length:
  assumes "is_raster h w a" "0 < h" "j < h + 2"
  shows "length (np_pad a ! j) = w + 2"
proof -
  have w: "snd (np_shape a) = w" using np_shape_raster [OF assms(1,2)] by simp
  have h: "length a = h" using assms(1) by (simp add: is_raster_def)
  consider "j = 0" | "0 < j" "j \<le> h" | "j = h + 1" using assms(3) by linarith
  then show ?thesis
  proof cases
    case 1
    then show ?thesis by (simp add: np_pad_def w)
  next
    case 2
    then have "np_pad a ! j = False # (a ! (j - 1)) @ [False]"
      by (cases j) (simp_all add: np_pad_def Let_def nth_append h)
    moreover have "length (a ! (j - 1)) = w"
      using 2 assms(1) by (intro is_raster_nth [of h w a]) simp_all
    ultimately show ?thesis by simp
  next
    case 3
    then show ?thesis by (simp add: np_pad_def w Let_def nth_append h)
  qed
qed

lemma np_pad_nth:
  assumes "is_raster h w a" "0 < h" "j < h + 2" "i < w + 2"
  shows "np_pad a ! j ! i = foreground a (int i - 1) (int j - 1)"
proof -
  have w: "snd (np_shape a) = w" using np_shape_raster [OF assms(1,2)] by simp
  have h: "length a = h" using assms(1) by (simp add: is_raster_def)
  consider "j = 0" | "0 < j" "j \<le> h" | "j = h + 1" using assms(3) by linarith
  then show ?thesis
  proof cases
    case 1
    then have "np_pad a ! j = replicate (w + 2) False" by (simp add: np_pad_def w)
    then have "\<not> np_pad a ! j ! i" using assms(4) by (simp only: nth_replicate not_False_eq_True)
    then show ?thesis using 1 by (simp add: foreground_def)
  next
    case 2
    then obtain j' where j: "j = Suc j'" "j' < h" by (cases j) simp_all
    have row: "np_pad a ! Suc j' = False # (a ! j') @ [False]"
      using j(2) by (simp add: np_pad_def Let_def nth_append h)
    have len: "length (a ! j') = w" using assms(1) j(2) by (rule is_raster_nth)
    consider "i = 0" | "0 < i" "i \<le> w" | "i = w + 1" using assms(4) by linarith
    then show ?thesis
    proof cases
      case 1
      then show ?thesis by (simp add: j(1) row foreground_def)
    next
      case 2
      then obtain i' where i: "i = Suc i'" "i' < w" by (cases i) simp_all
      show ?thesis using i(2) j(2) by (simp add: j(1) row i nth_append len foreground_def h)
    next
      case 3
      then show ?thesis by (simp add: j(1) row nth_append len foreground_def h)
    qed
  next
    case 3
    then have "np_pad a ! j = replicate (w + 2) False"
      by (simp add: np_pad_def w Let_def nth_append h)
    then have "\<not> np_pad a ! j ! i" using assms(4) by (simp only: nth_replicate not_False_eq_True)
    then show ?thesis using 3 by (simp add: foreground_def h)
  qed
qed

lemma take3_drop:
  "n + 2 < length xs \<Longrightarrow> take 3 (drop n xs) = [xs ! n, xs ! (n + 1), xs ! (n + 2)]"
  by (simp add: list_eq_iff_nth_eq less_Suc_eq eval_nat_numeral nth_Cons')


lemma count_filter_sum:
  "int (length (filter P xs)) = (\<Sum>x\<leftarrow>xs. if P x then 1 else 0)"
  by (induction xs) simp_all

lemma window_cells:
  assumes "is_raster h w a" "y < h" "x < w"
  shows "np_slice (np_pad a) y (Suc y + 2) x (Suc x + 2) =
     [[foreground a (int x - 1) (int y - 1), foreground a (int x) (int y - 1), foreground a (int x + 1) (int y - 1)],
      [foreground a (int x - 1) (int y), foreground a (int x) (int y), foreground a (int x + 1) (int y)],
      [foreground a (int x - 1) (int y + 1), foreground a (int x) (int y + 1), foreground a (int x + 1) (int y + 1)]]"
proof -
  have h: "0 < h" using assms(2) by simp
  have rows: "take 3 (drop y (np_pad a)) = [np_pad a ! y, np_pad a ! (y + 1), np_pad a ! (y + 2)]"
    using assms(2) by (intro take3_drop) (simp add: np_pad_length [OF assms(1)])
  have cells: "take 3 (drop x (np_pad a ! j)) =
      [foreground a (int x - 1) (int j - 1), foreground a (int x) (int j - 1),
       foreground a (int x + 1) (int j - 1)]" if j: "j < h + 2" for j
  proof -
    have "take 3 (drop x (np_pad a ! j)) = [np_pad a ! j ! x, np_pad a ! j ! (x + 1), np_pad a ! j ! (x + 2)]"
      using assms(3) by (intro take3_drop) (simp add: np_pad_row_length [OF assms(1) h j])
    moreover have "np_pad a ! j ! x = foreground a (int x - 1) (int j - 1)"
      using assms(3) by (intro np_pad_nth [OF assms(1) h j]) simp
    moreover have "np_pad a ! j ! (x + 1) = foreground a (int x) (int j - 1)"
      using assms(3) np_pad_nth [OF assms(1) h j, of "x + 1"] by simp
    moreover have "np_pad a ! j ! (x + 2) = foreground a (int x + 1) (int j - 1)"
      using assms(3) np_pad_nth [OF assms(1) h j, of "x + 2"] by (simp add: add.commute)
    ultimately show ?thesis by simp
  qed
  have "np_slice (np_pad a) y (Suc y + 2) x (Suc x + 2) =
      map (\<lambda>row. take 3 (drop x row)) (take 3 (drop y (np_pad a)))"
    by (simp add: np_slice_def)
  also have "\<dots> = [take 3 (drop x (np_pad a ! y)), take 3 (drop x (np_pad a ! (y + 1))),
      take 3 (drop x (np_pad a ! (y + 2)))]"
    by (simp only: rows list.map)
  finally show ?thesis
    using assms(2) cells [of y] cells [of "y + 1"] cells [of "y + 2"] by (simp add: add.commute)
qed

lemma window_count_pad:
  assumes "is_raster h w a" "y < h" "x < w"
  shows "window_count (np_pad a) (Suc y) (Suc x) =
     neighbor_count a (int x) (int y) + (if foreground a (int x) (int y) then 1 else 0) - 1"
  unfolding window_count_def diff_Suc_1 window_cells [OF assms]
  by (simp add: np_sum_def neighbor_count_def count_filter_sum surrounding_def)


lemma set_upt_from_1: "set [1 ..< n + 1] = {x. 1 \<le> x \<and> x \<le> n}"
  by (auto simp del: upt_Suc)

lemma find_network_points_closed:
  assumes "is_raster (height c) (width c) a"
  shows "find_network_points c a =
     Inr (concat (map (\<lambda>y. reported (np_pad a) (\<lambda>n. n = 1) y [1 ..< width c + 1]) [1 ..< height c + 1]),
          concat (map (\<lambda>y. reported (np_pad a) (\<lambda>n. 2 < n) y [1 ..< width c + 1]) [1 ..< height c + 1]))"
proof -
  have "\<forall>y\<in>set [1 ..< height c + 1]. y < length (np_pad a) \<and>
      (\<forall>x\<in>set [1 ..< width c + 1]. x < length (np_pad a ! y))"
    unfolding set_upt_from_1
  proof (intro ballI conjI)
    fix y assume y: "y \<in> {y. 1 \<le> y \<and> y \<le> height c}"
    then show "y < length (np_pad a)" by (simp add: np_pad_length [OF assms])
    fix x assume "x \<in> {x. 1 \<le> x \<and> x \<le> width c}"
    moreover have "length (np_pad a ! y) = width c + 2"
      using y by (intro np_pad_row_length [OF assms]) simp_all
    ultimately show "x < length (np_pad a ! y)" by simp
  qed
  from scan_rows_in_range [OF this, of "([], [])"] show ?thesis
    by (simp add: find_network_points_def)
qed

lemma reported_row:
  assumes "is_raster h w a" "y < h"
  shows "set (reported (np_pad a) sel (Suc y) [1 ..< w + 1]) =
     {p. snd p = int y \<and> foreground a (fst p) (snd p) \<and> sel (neighbor_count a (fst p) (snd p))}"
    (is "?L = ?R")
proof (intro set_eqI iffI)
  fix p assume "p \<in> ?L"
  then obtain x where x: "1 \<le> x" "x < w + 1" "p = (int x - 1, int (Suc y) - 1)"
    "np_pad a ! Suc y ! x" "sel (window_count (np_pad a) (Suc y) x)"
    unfolding reported_def set_map set_filter set_upt_from_1 by auto
  from x(1) obtain x' where x': "x = Suc x'" by (cases x) simp_all
  with x(2) have lt: "x' < w" by simp
  have fg: "foreground a (int x') (int y)"
    using x(4) np_pad_nth [OF assms(1), of "Suc y" "Suc x'"] assms(2) lt by (simp add: x')
  have "window_count (np_pad a) (Suc y) (Suc x') = neighbor_count a (int x') (int y)"
    using window_count_pad [OF assms lt] fg by simp
  with x(5) fg show "p \<in> ?R" by (simp add: x(3) x')
next
  fix p assume p: "p \<in> ?R"
  then have fg: "foreground a (fst p) (int y)" and sel: "sel (neighbor_count a (fst p) (int y))"
    and sp: "snd p = int y" by auto
  from fg assms have "0 \<le> fst p" "nat (fst p) < w"
    by (auto simp: foreground_def dest: is_raster_nth)
  then obtain x' where x': "fst p = int x'" "x' < w" by (metis nat_0_le)
  have cell: "np_pad a ! Suc y ! Suc x'"
    using fg np_pad_nth [OF assms(1), of "Suc y" "Suc x'"] assms(2) x' by simp
  have "window_count (np_pad a) (Suc y) (Suc x') = neighbor_count a (int x') (int y)"
    using window_count_pad [OF assms x'(2)] fg x'(1) by simp
  with sel x'(1) have cnt: "sel (window_count (np_pad a) (Suc y) (Suc x'))" by simp
  have peq: "p = (int (Suc x') - 1, int (Suc y) - 1)"
    using x'(1) sp by (cases p) simp
  show "p \<in> ?L"
    unfolding reported_def set_map set_filter set_upt_from_1
  proof (rule image_eqI [where x = "Suc x'"])
    show "p = (int (Suc x') - 1, int (Suc y) - 1)" by (rule peq)
    show "Suc x' \<in> {x \<in> {x. 1 \<le> x \<and> x \<le> w}.
        np_pad a ! Suc y ! x \<and> sel (window_count (np_pad a) (Suc y) x)}"
      using cell cnt x'(2) by simp
  qed
qed

lemma reported_all_rows:
  assumes "is_raster h w a"
  shows "set (concat (map (\<lambda>y. reported (np_pad a) sel y [1 ..< w + 1]) [1 ..< h + 1])) =
     {p. foreground a (fst p) (snd p) \<and> sel (neighbor_count a (fst p) (snd p))}"
    (is "?L = ?R")
proof (intro set_eqI iffI)
  fix p assume "p \<in> ?L"
  then obtain y where y: "1 \<le> y" "y < h + 1" "p \<in> set (reported (np_pad a) sel y [1 ..< w + 1])"
    unfolding set_concat set_map set_upt_from_1 by auto
  from y(1) obtain y' where y': "y = Suc y'" by (cases y) simp_all
  with y(2) have "y' < h" by simp
  from y(3) show "p \<in> ?R"
    unfolding y' reported_row [OF assms \<open>y' < h\<close>] by auto
next
  fix p assume p: "p \<in> ?R"
  then have "0 \<le> snd p" "nat (snd p) < h"
    using assms by (auto simp: foreground_def is_raster_def)
  then obtain y' where y': "snd p = int y'" "y' < h" by (metis nat_0_le)
  have "p \<in> set (reported (np_pad a) sel (Suc y') [1 ..< w + 1])"
    unfolding reported_row [OF assms y'(2)] using p y'(1) by auto
  moreover have "Suc y' \<in> {y. 1 \<le> y \<and> y \<le> h}" using y'(2) by simp
  ultimately show "p \<in> ?L" unfolding set_concat set_map set_upt_from_1 by blast
qed





subsection \<open>The value of the cleaned array\<close>

lemma prune_endpoint_chosen:
  "prune_endpoint c r skeleton ints cleaned e s =
     (case chosen c ints e of
        None \<Rightarrow> s
      | Some ci \<Rightarrow>
          (case erase_path c cleaned (fst (get_path r skeleton e ci s)) (snd (get_path r skeleton e ci s)) of
             Inr s2 \<Rightarrow> s2
           | Inl (x, s2) \<Rightarrow> s2\<lparr>trace := trace s2 @ [Warning]\<rparr>))"
  by (simp add: prune_endpoint_def chosen_def below_def split_beta
      split: prod.splits option.splits)

lemma get_path_value:
  "fst (get_path r skeleton e ci s) =
     (case r (map (map Not) (heap s ! skeleton)) (snd e, fst e) (snd ci, fst ci) of
        Inr indices \<Rightarrow> indices | Inl x \<Rightarrow> [])"
  and get_path_heap:
  "heap (snd (get_path r skeleton e ci s)) = heap s @ [map (map Not) (heap s ! skeleton)]"
  by (simp_all add: get_path_def np_invert_def Let_def split: sum.splits)

lemma erase_path_heap:
  "cleaned < length (heap s) \<Longrightarrow>
   heap (final_state (erase_path c cleaned path s)) =
     (heap s)[cleaned := erase_cells c (heap s ! cleaned) path]"
proof (induction path arbitrary: s)
  case Nil
  show ?case by (simp add: final_state_def)
next
  case (Cons p path)
  obtain py px where p: "p = (py, px)" by (cases p)
  show ?case
  proof (cases "0 \<le> py \<and> py < int (height c) \<and> 0 \<le> px \<and> px < int (width c)")
    case False
    then show ?thesis using Cons.IH [OF Cons.prems] by (auto simp: p)
  next
    case True
    show ?thesis
    proof (cases "setitem cleaned py px False s")
      case (Inl x)
      then have "erase_cells c (heap s ! cleaned) ((py, px) # path) = heap s ! cleaned"
        using True by (auto simp: setitem_def Let_def split: option.splits)
      with Inl True show ?thesis by (simp add: p final_state_def)
    next
      case (Inr s')
      then obtain y x where yx: "np_index (length (heap s ! cleaned)) py = Some y"
        "np_index (length (heap s ! cleaned ! y)) px = Some x"
        and s': "heap s' = (heap s)[cleaned := (heap s ! cleaned)[y := (heap s ! cleaned ! y)[x := False]]]"
        by (auto simp: setitem_def Let_def split: option.splits)
      have "cleaned < length (heap s')" using Cons.prems by (simp add: s')
      from Cons.IH [OF this] Cons.prems True Inr yx show ?thesis
        by (simp add: p s')
    qed
  qed
qed

lemma prune_endpoint_heap:
  assumes "skeleton < length (heap s)" "cleaned < length (heap s)"
  shows "heap (prune_endpoint c r skeleton ints cleaned e s) ! cleaned =
     erase_cells c (heap s ! cleaned) (route_for c r (heap s ! skeleton) ints e)"
proof (cases "chosen c ints e")
  case None
  then show ?thesis by (simp add: prune_endpoint_chosen route_for_def)
next
  case (Some ci)
  let ?g = "get_path r skeleton e ci s"
  have cl: "cleaned < length (heap (snd ?g))" using assms(2) by (simp add: get_path_heap)
  have "heap (prune_endpoint c r skeleton ints cleaned e s) =
      heap (final_state (erase_path c cleaned (fst ?g) (snd ?g)))"
    by (simp add: prune_endpoint_chosen Some final_state_def split: sum.splits)
  also have "\<dots> = (heap (snd ?g))[cleaned := erase_cells c (heap (snd ?g) ! cleaned) (fst ?g)]"
    by (rule erase_path_heap [OF cl])
  finally show ?thesis using assms cl
    by (simp add: get_path_heap get_path_value route_for_def Some nth_append)
qed

lemma prune_endpoints_heap:
  assumes "skeleton < length (heap s)" "cleaned < length (heap s)" "skeleton \<noteq> cleaned"
  shows "heap (prune_endpoints c r skeleton ints cleaned eps s) ! cleaned =
     pruned c r (heap s ! skeleton) ints eps (heap s ! cleaned)"
  using assms(1,2)
proof (induction eps arbitrary: s)
  case Nil
  show ?case by simp
next
  case (Cons e eps)
  let ?s1 = "prune_endpoint c r skeleton ints cleaned e s"
  have oe: "only_erased cleaned s ?s1"
    using Cons.prems(2) by (rule prune_endpoint_only_erased)
  then have len: "skeleton < length (heap ?s1)" "cleaned < length (heap ?s1)"
    using Cons.prems by (simp_all add: only_erased_def)
  have sk: "heap ?s1 ! skeleton = heap s ! skeleton"
    using oe Cons.prems(1) assms(3) by (simp add: only_erased_def)
  show ?case
    by (simp add: Cons.IH [OF len] sk prune_endpoint_heap [OF Cons.prems])
qed

lemma remove_spurious_roads_value:
  assumes "skeleton < length (heap s)"
      and "remove_spurious_roads c r skeleton eps ints s = (cleaned, s')"
  shows "heap s' ! cleaned = pruned c r (heap s ! skeleton) ints eps (heap s ! skeleton)"
proof -
  let ?s1 = "s\<lparr>heap := heap s @ [heap s ! skeleton]\<rparr>"
  from assms(2) have c: "cleaned = length (heap s)"
    and s': "s' = prune_endpoints c r skeleton ints cleaned eps ?s1"
    by (auto simp: remove_spurious_roads_def np_copy_def)
  have "heap s' ! cleaned = pruned c r (heap ?s1 ! skeleton) ints eps (heap ?s1 ! cleaned)"
    unfolding s' using assms(1) by (intro prune_endpoints_heap) (simp_all add: c)
  then show ?thesis using assms(1) by (simp add: c nth_append)
qed

subsection \<open>The closest intersection\<close>





lemma chosen_mono:
  assumes "min_road_length c1 \<le> min_road_length c2" "chosen c1 ints e = Some ci"
  shows "chosen c2 ints e = Some ci"
  using assms by (auto simp: chosen_def split: prod.splits option.splits if_splits)

subsection \<open>The trace of a pruning run\<close>

lemma quiet_Nil: "quiet c cleaned []"
  by (simp add: quiet_def)

lemma quiet_append: "quiet c cleaned (xs @ ys) \<longleftrightarrow> quiet c cleaned xs \<and> quiet c cleaned ys"
  by (auto simp: quiet_def)

lemma get_path_calls_append:
  "get_path_calls (xs @ ys) = get_path_calls xs @ get_path_calls ys"
  by (induction xs rule: get_path_calls.induct) simp_all

lemma get_path_calls_quiet: "quiet c cleaned evs \<Longrightarrow> get_path_calls evs = []"
  by (induction evs rule: get_path_calls.induct) (auto simp: quiet_def)

lemma setitem_trace:
  "setitem a py px v s = Inr s' \<Longrightarrow> trace s' = trace s @ [Assign a py px]"
  by (auto simp: setitem_def Let_def split: option.splits)

lemma erase_path_trace:
  "\<exists>new. trace (final_state (erase_path c cleaned path s)) = trace s @ new \<and> quiet c cleaned new"
proof (induction path arbitrary: s)
  case Nil
  show ?case by (simp add: final_state_def quiet_Nil)
next
  case (Cons p path)
  obtain py px where p: "p = (py, px)" by (cases p)
  show ?case
  proof (cases "0 \<le> py \<and> py < int (height c) \<and> 0 \<le> px \<and> px < int (width c)")
    case False
    then show ?thesis using Cons.IH [of s] by (auto simp: p)
  next
    case True
    show ?thesis
    proof (cases "setitem cleaned py px False s")
      case (Inl x)
      with True show ?thesis by (simp add: p final_state_def quiet_Nil)
    next
      case (Inr s')
      from Cons.IH [of s'] obtain new where
        new: "trace (final_state (erase_path c cleaned path s')) = trace s' @ new"
        "quiet c cleaned new" by blast
      have "quiet c cleaned (Assign cleaned py px # new)"
        using new(2) True by (simp add: quiet_def)
      moreover have "trace (final_state (erase_path c cleaned (p # path) s)) =
          trace s @ Assign cleaned py px # new"
        using True Inr new(1) setitem_trace [OF Inr] by (simp add: p)
      ultimately show ?thesis by blast
    qed
  qed
qed

lemma get_path_trace:
  "\<exists>new. trace (snd (get_path r skeleton e ci s)) = trace s @ GetPath e ci # new \<and>
     quiet c cleaned new"
  by (auto simp: get_path_def np_invert_def Let_def quiet_def split: sum.splits)

lemma prune_endpoint_trace:
  "\<exists>new. trace (prune_endpoint c r skeleton ints cleaned e s) =
       trace s @ (case chosen c ints e of None \<Rightarrow> [] | Some ci \<Rightarrow> GetPath e ci # new) \<and>
     quiet c cleaned new"
proof (cases "chosen c ints e")
  case None
  then show ?thesis using quiet_Nil by (auto simp: prune_endpoint_chosen)
next
  case (Some ci)
  let ?g = "get_path r skeleton e ci s"
  from get_path_trace [of r skeleton e ci s c cleaned] obtain n1 where
    n1: "trace (snd ?g) = trace s @ GetPath e ci # n1" "quiet c cleaned n1" by blast
  from erase_path_trace [of c cleaned "fst ?g" "snd ?g"] obtain n2 where
    n2: "trace (final_state (erase_path c cleaned (fst ?g) (snd ?g))) = trace (snd ?g) @ n2"
    "quiet c cleaned n2" by blast
  show ?thesis
  proof (cases "erase_path c cleaned (fst ?g) (snd ?g)")
    case (Inr s2)
    then have "trace (prune_endpoint c r skeleton ints cleaned e s) =
        trace s @ GetPath e ci # (n1 @ n2)"
      using n1(1) n2(1) by (simp add: prune_endpoint_chosen Some final_state_def)
    moreover have "quiet c cleaned (n1 @ n2)" using n1(2) n2(2) by (simp add: quiet_append)
    ultimately show ?thesis using Some by auto
  next
    case (Inl xs)
    then obtain x s2 where xs: "xs = (x, s2)" by (cases xs)
    have "trace (prune_endpoint c r skeleton ints cleaned e s) =
        trace s @ GetPath e ci # (n1 @ n2 @ [Warning])"
      using n1(1) n2(1) Inl by (simp add: prune_endpoint_chosen Some final_state_def xs)
    moreover have "quiet c cleaned (n1 @ n2 @ [Warning])"
      using n1(2) n2(2) by (simp add: quiet_append) (simp add: quiet_def)
    ultimately show ?thesis using Some by auto
  qed
qed

lemma prune_endpoint_calls:
  "get_path_calls (trace (prune_endpoint c r skeleton ints cleaned e s)) =
     get_path_calls (trace s) @ (if chosen c ints e = None then [] else [e])"
proof -
  from prune_endpoint_trace [of c r skeleton ints cleaned e s] obtain new where
    "trace (prune_endpoint c r skeleton ints cleaned e s) =
       trace s @ (case chosen c ints e of None \<Rightarrow> [] | Some ci \<Rightarrow> GetPath e ci # new)"
    "quiet c cleaned new" by blast
  then show ?thesis
    by (auto simp: get_path_calls_append get_path_calls_quiet split: option.splits)
qed

lemma prune_endpoints_calls:
  "get_path_calls (trace (prune_endpoints c r skeleton ints cleaned eps s)) =
     get_path_calls (trace s) @ filter (\<lambda>e. chosen c ints e \<noteq> None) eps"
  by (induction eps arbitrary: s) (simp_all add: prune_endpoint_calls)

lemma prune_endpoints_trace:
  "\<exists>new. trace (prune_endpoints c r skeleton ints cleaned eps s) = trace s @ new \<and>
     (\<forall>a py px. Assign a py px \<in> set new \<longrightarrow>
        a = cleaned \<and> 0 \<le> py \<and> py < int (height c) \<and> 0 \<le> px \<and> px < int (width c))"
proof (induction eps arbitrary: s)
  case Nil
  show ?case by simp
next
  case (Cons e eps)
  let ?s1 = "prune_endpoint c r skeleton ints cleaned e s"
  from prune_endpoint_trace [of c r skeleton ints cleaned e s] obtain n1 where
    n1: "trace ?s1 = trace s @ (case chosen c ints e of None \<Rightarrow> [] | Some ci \<Rightarrow> GetPath e ci # n1)"
    "quiet c cleaned n1" by blast
  from Cons.IH [of ?s1] obtain n2 where
    n2: "trace (prune_endpoints c r skeleton ints cleaned eps ?s1) = trace ?s1 @ n2"
    "\<forall>a py px. Assign a py px \<in> set n2 \<longrightarrow>
        a = cleaned \<and> 0 \<le> py \<and> py < int (height c) \<and> 0 \<le> px \<and> px < int (width c)"
    by blast
  let ?n = "(case chosen c ints e of None \<Rightarrow> [] | Some ci \<Rightarrow> GetPath e ci # n1) @ n2"
  have "trace (prune_endpoints c r skeleton ints cleaned (e # eps) s) = trace s @ ?n"
    using n1(1) n2(1) by simp
  moreover have "\<forall>a py px. Assign a py px \<in> set ?n \<longrightarrow>
        a = cleaned \<and> 0 \<le> py \<and> py < int (height c) \<and> 0 \<le> px \<and> px < int (width c)"
    using n1(2) n2(2) by (auto simp: quiet_def split: option.splits)
  ultimately show ?case by blast
qed


lemma length_filter_mono:
  "(\<And>x. P x \<Longrightarrow> Q x) \<Longrightarrow> length (filter P xs) \<le> length (filter Q xs)"
  by (induction xs) auto

lemma remove_spurious_roads_calls:
  assumes "remove_spurious_roads c r skeleton eps ints s = (cleaned, s')"
  shows "get_path_calls (trace s') =
     get_path_calls (trace s) @ filter (\<lambda>e. chosen c ints e \<noteq> None) eps"
proof -
  from assms have "s' = prune_endpoints c r skeleton ints cleaned eps
      (s\<lparr>heap := heap s @ [heap s ! skeleton]\<rparr>)"
    by (auto simp: remove_spurious_roads_def np_copy_def)
  then show ?thesis by (simp add: prune_endpoints_calls)
qed

lemma foreground_in_raster:
  assumes "is_raster h w a" "foreground a x y"
  shows "0 \<le> x \<and> x < int w \<and> 0 \<le> y \<and> y < int h"
proof -
  from assms(2) have y: "0 \<le> y" "nat y < length a" and x: "0 \<le> x" "nat x < length (a ! nat y)"
    by (simp_all add: foreground_def)
  from assms(1) y(2) have "nat y < h" "length (a ! nat y) = w"
    by (auto simp: is_raster_def list_all_length)
  with x y show ?thesis by auto
qed

lemma find_network_points_in_raster:
  assumes "is_raster (height c) (width c) a"
  shows "\<exists>endpoints intersections. find_network_points c a = Inr (endpoints, intersections) \<and>
     (\<forall>p\<in>set endpoints \<union> set intersections.
        0 \<le> fst p \<and> fst p < int (width c) \<and> 0 \<le> snd p \<and> snd p < int (height c))"
proof -
  let ?eps = "concat (map (\<lambda>y. reported (np_pad a) (\<lambda>n. n = 1) y [1 ..< width c + 1]) [1 ..< height c + 1])"
  let ?ints = "concat (map (\<lambda>y. reported (np_pad a) (\<lambda>n. 2 < n) y [1 ..< width c + 1]) [1 ..< height c + 1])"
  have "foreground a (fst p) (snd p)" if "p \<in> set ?eps \<union> set ?ints" for p
    using that unfolding reported_all_rows [OF assms] by blast
  then have "\<forall>p\<in>set ?eps \<union> set ?ints.
      0 \<le> fst p \<and> fst p < int (width c) \<and> 0 \<le> snd p \<and> snd p < int (height c)"
    using foreground_in_raster [OF assms] by blast
  with find_network_points_closed [OF assms] show ?thesis by blast
qed

lemma remove_spurious_roads_trace:
  assumes "remove_spurious_roads c r skeleton eps ints s = (cleaned, s')"
  shows "\<exists>new. trace s' = trace s @ new \<and>
     (\<forall>a py px. Assign a py px \<in> set new \<longrightarrow>
        a = cleaned \<and> 0 \<le> py \<and> py < int (height c) \<and> 0 \<le> px \<and> px < int (width c))"
proof -
  let ?s1 = "s\<lparr>heap := heap s @ [heap s ! skeleton]\<rparr>"
  from assms have "s' = prune_endpoints c r skeleton ints cleaned eps ?s1"
    by (auto simp: remove_spurious_roads_def np_copy_def)
  with prune_endpoints_trace [of c r skeleton ints cleaned eps ?s1] show ?thesis by simp
qed






subsection \<open>Runs on the concrete rasters\<close>

lemma sqrt_less_nonneg: "0 \<le> t \<Longrightarrow> sqrt x < t \<longleftrightarrow> x < t\<^sup>2"
  by (metis real_sqrt_less_iff real_sqrt_abs abs_of_nonneg)

lemma distance_less_distance:
  "distance e i < distance e j \<longleftrightarrow>
   (fst e - fst i)\<^sup>2 + (snd e - snd i)\<^sup>2 < (fst e - fst j)\<^sup>2 + (snd e - snd j)\<^sup>2"
  unfolding distance_def by (simp only: real_sqrt_less_iff of_int_less_iff)

lemma distance_less_real:
  "0 \<le> t \<Longrightarrow> distance e i < t \<longleftrightarrow> real_of_int ((fst e - fst i)\<^sup>2 + (snd e - snd i)\<^sup>2) < t\<^sup>2"
  unfolding distance_def by (rule sqrt_less_nonneg)

lemma bar_chosen: "chosen bar_cleaner [(2, 0)] (0, 0) = Some (2, 0)"
  by (simp add: chosen_def less_dist_def distance_less_real bar_cleaner_def)

lemma bar_get_path:
  "get_path overshooting_router 0 (0, 0) (2, 0) \<lparr>heap = [bar_skeleton, bar_skeleton], trace = []\<rparr> =
     ([(0, 0), (0, 1), (0, 2), (0, 3), (- 1, 0), (1, 1)],
      \<lparr>heap = [bar_skeleton, bar_skeleton, [[False, False, False]]],
       trace = [GetPath (0, 0) (2, 0)]\<rparr>)"
  by (simp add: get_path_def np_invert_def overshooting_router_def bar_skeleton_def)

lemma bar_erase_path:
  "erase_path bar_cleaner (Suc 0) [(0, 0), (0, 1), (0, 2), (0, 3), (- 1, 0), (1, 1)]
     \<lparr>heap = [bar_skeleton, bar_skeleton, [[False, False, False]]],
       trace = [GetPath (0, 0) (2, 0)]\<rparr> =
   Inr \<lparr>heap = [bar_skeleton, [[False, False, False]], [[False, False, False]]],
        trace = [GetPath (0, 0) (2, 0), Assign 1 0 0, Assign 1 0 1, Assign 1 0 2]\<rparr>"
  by (simp add: setitem_def np_index_def bar_skeleton_def bar_cleaner_def)

lemma bar_run:
  "remove_spurious_roads bar_cleaner overshooting_router 0 [(0, 0)] [(2, 0)] bar_state =
     (1, \<lparr>heap = [bar_skeleton, [[False, False, False]], [[False, False, False]]],
          trace = [GetPath (0, 0) (2, 0), Assign 1 0 0, Assign 1 0 1, Assign 1 0 2]\<rparr>)"
  by (simp add: remove_spurious_roads_def np_copy_def bar_state_def prune_endpoint_chosen
      bar_chosen bar_get_path bar_erase_path del: erase_path.simps)

lemma tee_points:
  "find_network_points tee_cleaner tee_skeleton =
     Inr ([(4, 2), (1, 5), (8, 5)], [(4, 4), (3, 5), (4, 5), (5, 5)])"
  by code_simp

lemma tee_chosen:
  "chosen tee_cleaner [(4, 4), (3, 5), (4, 5), (5, 5)] (4, 2) = Some (4, 4)"
  "chosen tee_cleaner [(4, 4), (3, 5), (4, 5), (5, 5)] (1, 5) = Some (3, 5)"
  "chosen tee_cleaner [(4, 4), (3, 5), (4, 5), (5, 5)] (8, 5) = Some (5, 5)"
  by (simp_all add: chosen_def less_dist_def distance_less_distance distance_less_real
      tee_cleaner_def)

lemma tee_walks:
  "walking_router cost (2, 4) (4, 4) = Inr [(2, 4), (3, 4), (4, 4)]"
  "walking_router cost (5, 1) (5, 3) = Inr [(5, 1), (5, 2), (5, 3)]"
  "walking_router cost (5, 8) (5, 5) = Inr [(5, 8), (5, 7), (5, 6), (5, 5)]"
  by (simp_all add: walking_router_def eval_nat_numeral)

lemma bar_points: "find_network_points bar_cleaner bar_skeleton = Inr ([(0, 0), (2, 0)], [])"
  by code_simp


lemma tee_dims: "height tee_cleaner = 10" "width tee_cleaner = 10"
  by (simp_all add: tee_cleaner_def)

lemma tee_erased:
  "erase_cells tee_cleaner
     (erase_cells tee_cleaner
        (erase_cells tee_cleaner tee_skeleton [(2, 4), (3, 4), (4, 4)])
        [(5, 1), (5, 2), (5, 3)])
     [(5, 8), (5, 7), (5, 6), (5, 5)] = tee_cleaned"
  by (simp add: tee_dims np_index_def tee_skeleton_def tee_cleaned_def)

lemma tee_pruned_walking:
  "pruned tee_cleaner walking_router tee_skeleton [(4, 4), (3, 5), (4, 5), (5, 5)]
     [(4, 2), (1, 5), (8, 5)] tee_skeleton = tee_cleaned"
  by (simp add: route_for_def tee_chosen tee_walks tee_erased del: erase_cells.simps)

subsection \<open>Routes of cost zero in the concrete scenario\<close>

lemma step_around:
  assumes "max \<bar>fst q - fst p\<bar> \<bar>snd q - snd p\<bar> = 1"
  shows "q \<in> set (around p)"
proof -
  obtain a b where d: "a = fst q - fst p" "b = snd q - snd p" by blast
  with assms have "max \<bar>a\<bar> \<bar>b\<bar> = 1" by simp
  then have "a = - 1 \<or> a = 0 \<or> a = 1" "b = - 1 \<or> b = 0 \<or> b = 1" "a \<noteq> 0 \<or> b \<noteq> 0"
    by linarith+
  then have "(a, b) \<in> {(-1, -1), (0, -1), (1, -1), (-1, 0), (1, 0), (-1, 1), (0, 1), (1, 1)}"
    by auto
  then have "(a, b) \<in> set surrounding" by (simp add: surrounding_def)
  moreover have "q = (fst p + fst (a, b), snd p + snd (a, b))" using d by simp
  ultimately show ?thesis unfolding around_def set_map by (rule rev_image_eqI)
qed

lemma route_next:
  assumes "stepwise (a # ps)" "list_all (free_cell cost) ps" "last (a # ps) = g" "a \<noteq> g"
  shows "\<exists>b ps'. ps = b # ps' \<and> b \<in> set (filter (free_cell cost) (around a)) \<and>
     stepwise (b # ps') \<and> list_all (free_cell cost) ps' \<and> last (b # ps') = g"
proof (cases ps)
  case Nil
  with assms(3,4) show ?thesis by simp
next
  case (Cons b ps')
  with assms(1) have "max \<bar>fst b - fst a\<bar> \<bar>snd b - snd a\<bar> = 1" "stepwise (b # ps')" by simp_all
  moreover from Cons assms(2) have "free_cell cost b" "list_all (free_cell cost) ps'" by simp_all
  moreover from Cons assms(3) have "last (b # ps') = g" by simp
  ultimately show ?thesis using Cons step_around [of b a] by simp
qed

lemma route_end:
  assumes "distinct (pre @ g # ps)" "last (g # ps) = g"
  shows "ps = []"
proof (rule ccontr)
  assume "ps \<noteq> []"
  then have "last (g # ps) \<in> set ps" by simp
  with assms show False by simp
qed

lemma tee_free:
  "filter (free_cell (map (map Not) tee_skeleton)) (around (2, 4)) = [(3, 4)]"
  "filter (free_cell (map (map Not) tee_skeleton)) (around (3, 4)) = [(2, 4), (4, 4)]"
  "filter (free_cell (map (map Not) tee_skeleton)) (around (5, 1)) = [(5, 2)]"
  "filter (free_cell (map (map Not) tee_skeleton)) (around (5, 2)) = [(5, 1), (5, 3)]"
  "filter (free_cell (map (map Not) tee_skeleton)) (around (5, 8)) = [(5, 7)]"
  "filter (free_cell (map (map Not) tee_skeleton)) (around (5, 7)) = [(5, 6), (5, 8)]"
  "filter (free_cell (map (map Not) tee_skeleton)) (around (5, 6)) = [(5, 5), (5, 7)]"
  by (simp_all add: around_def surrounding_def free_cell_def tee_skeleton_def)

lemma tee_route_stub:
  assumes "free_route (map (map Not) tee_skeleton) (2, 4) (4, 4) p"
  shows "p = [(2, 4), (3, 4), (4, 4)]"
proof -
  let ?cost = "map (map Not) tee_skeleton"
  from assms obtain ps where p: "p = (2, 4) # ps"
    by (cases p) (auto simp: free_route_def)
  from assms have d: "distinct p" and st: "stepwise p" and fr: "list_all (free_cell ?cost) ps"
    and la: "last p = (4, 4)"
    by (simp_all add: free_route_def p)
  from route_next [OF st [unfolded p] fr la [unfolded p]] obtain b ps1 where
    1: "ps = b # ps1" "b \<in> set (filter (free_cell ?cost) (around (2, 4)))"
    "stepwise (b # ps1)" "list_all (free_cell ?cost) ps1" "last (b # ps1) = (4, 4)"
    by auto
  from 1(2) have b: "b = (3, 4)" by (simp only: tee_free) simp
  from route_next [OF 1(3) [unfolded b] 1(4) 1(5) [unfolded b]] obtain c ps2 where
    2: "ps1 = c # ps2" "c \<in> set (filter (free_cell ?cost) (around (3, 4)))"
    "last (c # ps2) = (4, 4)"
    by auto
  from 2(2) d have c: "c = (4, 4)" by (simp only: tee_free) (auto simp: p 1(1) b 2(1))
  have "distinct ([(2, 4), (3, 4)] @ (4, 4) # ps2)" using d by (simp add: p 1(1) b 2(1) c)
  then have "ps2 = []" using 2(3) [unfolded c] by (rule route_end)
  then show ?thesis by (simp add: p 1(1) b 2(1) c)
qed

lemma tee_route_left:
  assumes "free_route (map (map Not) tee_skeleton) (5, 1) (5, 3) p"
  shows "p = [(5, 1), (5, 2), (5, 3)]"
proof -
  let ?cost = "map (map Not) tee_skeleton"
  from assms obtain ps where p: "p = (5, 1) # ps"
    by (cases p) (auto simp: free_route_def)
  from assms have d: "distinct p" and st: "stepwise p" and fr: "list_all (free_cell ?cost) ps"
    and la: "last p = (5, 3)"
    by (simp_all add: free_route_def p)
  from route_next [OF st [unfolded p] fr la [unfolded p]] obtain b ps1 where
    1: "ps = b # ps1" "b \<in> set (filter (free_cell ?cost) (around (5, 1)))"
    "stepwise (b # ps1)" "list_all (free_cell ?cost) ps1" "last (b # ps1) = (5, 3)"
    by auto
  from 1(2) have b: "b = (5, 2)" by (simp only: tee_free) simp
  from route_next [OF 1(3) [unfolded b] 1(4) 1(5) [unfolded b]] obtain c ps2 where
    2: "ps1 = c # ps2" "c \<in> set (filter (free_cell ?cost) (around (5, 2)))"
    "last (c # ps2) = (5, 3)"
    by auto
  from 2(2) d have c: "c = (5, 3)" by (simp only: tee_free) (auto simp: p 1(1) b 2(1))
  have "distinct ([(5, 1), (5, 2)] @ (5, 3) # ps2)" using d by (simp add: p 1(1) b 2(1) c)
  then have "ps2 = []" using 2(3) [unfolded c] by (rule route_end)
  then show ?thesis by (simp add: p 1(1) b 2(1) c)
qed

lemma tee_route_right:
  assumes "free_route (map (map Not) tee_skeleton) (5, 8) (5, 5) p"
  shows "p = [(5, 8), (5, 7), (5, 6), (5, 5)]"
proof -
  let ?cost = "map (map Not) tee_skeleton"
  from assms obtain ps where p: "p = (5, 8) # ps"
    by (cases p) (auto simp: free_route_def)
  from assms have d: "distinct p" and st: "stepwise p" and fr: "list_all (free_cell ?cost) ps"
    and la: "last p = (5, 5)"
    by (simp_all add: free_route_def p)
  from route_next [OF st [unfolded p] fr la [unfolded p]] obtain b ps1 where
    1: "ps = b # ps1" "b \<in> set (filter (free_cell ?cost) (around (5, 8)))"
    "stepwise (b # ps1)" "list_all (free_cell ?cost) ps1" "last (b # ps1) = (5, 5)"
    by auto
  from 1(2) have b: "b = (5, 7)" by (simp only: tee_free) simp
  from route_next [OF 1(3) [unfolded b] 1(4) 1(5) [unfolded b]] obtain c ps2 where
    2: "ps1 = c # ps2" "c \<in> set (filter (free_cell ?cost) (around (5, 7)))"
    "stepwise (c # ps2)" "list_all (free_cell ?cost) ps2" "last (c # ps2) = (5, 5)"
    by auto
  from 2(2) d have c: "c = (5, 6)" by (simp only: tee_free) (auto simp: p 1(1) b 2(1))
  from route_next [OF 2(3) [unfolded c] 2(4) 2(5) [unfolded c]] obtain e ps3 where
    3: "ps2 = e # ps3" "e \<in> set (filter (free_cell ?cost) (around (5, 6)))"
    "last (e # ps3) = (5, 5)"
    by auto
  from 3(2) d have e: "e = (5, 5)" by (simp only: tee_free) (auto simp: p 1(1) b 2(1) c 3(1))
  have "distinct ([(5, 8), (5, 7), (5, 6)] @ (5, 5) # ps3)"
    using d by (simp add: p 1(1) b 2(1) c 3(1) e)
  then have "ps3 = []" using 3(3) [unfolded e] by (rule route_end)
  then show ?thesis by (simp add: p 1(1) b 2(1) c 3(1) e)
qed

lemma tee_skeleton_at: "heap tee_state ! 0 = tee_skeleton" "0 < length (heap tee_state)"
  by (simp_all add: tee_state_def)

lemma tee_walks_free:
  "free_route (map (map Not) tee_skeleton) (2, 4) (4, 4) [(2, 4), (3, 4), (4, 4)]"
  "free_route (map (map Not) tee_skeleton) (5, 1) (5, 3) [(5, 1), (5, 2), (5, 3)]"
  "free_route (map (map Not) tee_skeleton) (5, 8) (5, 5) [(5, 8), (5, 7), (5, 6), (5, 5)]"
  by (simp_all add: free_route_def free_cell_def tee_skeleton_def)

section \<open>Properties of the cleaner\<close>

text \<open>
  \<^bold>\<open>C1.\<close> On a skeleton whose shape is the one stored in the cleaner, classification
  returns, and for every pixel: it is among the endpoints exactly when it is foreground and
  the count of foreground cells among its eight surrounding cells (cells outside the raster
  counting as background) is 1; it is among the intersections exactly when it is foreground
  and that count exceeds 2; for a foreground pixel the window sum on the padded array, less
  one, is that count; and no pixel is in both lists.
\<close>

theorem classification_by_neighbor_count:
  assumes "is_raster (height c) (width c) skeleton"
  shows "\<exists>endpoints intersections.
     find_network_points c skeleton = Inr (endpoints, intersections) \<and>
     (\<forall>x y. (x, y) \<in> set endpoints \<longleftrightarrow>
        foreground skeleton x y \<and> neighbor_count skeleton x y = 1) \<and>
     (\<forall>x y. (x, y) \<in> set intersections \<longleftrightarrow>
        foreground skeleton x y \<and> 2 < neighbor_count skeleton x y) \<and>
     (\<forall>x < width c. \<forall>y < height c. foreground skeleton (int x) (int y) \<longrightarrow>
        np_sum (np_slice (np_pad skeleton) (Suc y - 1) (Suc y + 2) (Suc x - 1) (Suc x + 2)) - 1 =
        neighbor_count skeleton (int x) (int y)) \<and>
     set endpoints \<inter> set intersections = {}"
proof -
  let ?eps = "concat (map (\<lambda>y. reported (np_pad skeleton) (\<lambda>n. n = 1) y [1 ..< width c + 1]) [1 ..< height c + 1])"
  let ?ints = "concat (map (\<lambda>y. reported (np_pad skeleton) (\<lambda>n. 2 < n) y [1 ..< width c + 1]) [1 ..< height c + 1])"
  have eps: "set ?eps = {p. foreground skeleton (fst p) (snd p) \<and> neighbor_count skeleton (fst p) (snd p) = 1}"
    by (rule reported_all_rows [OF assms])
  have ints: "set ?ints = {p. foreground skeleton (fst p) (snd p) \<and> 2 < neighbor_count skeleton (fst p) (snd p)}"
    by (rule reported_all_rows [OF assms])
  have count: "np_sum (np_slice (np_pad skeleton) (Suc y - 1) (Suc y + 2) (Suc x - 1) (Suc x + 2)) - 1 =
      neighbor_count skeleton (int x) (int y)"
    if "x < width c" "y < height c" "foreground skeleton (int x) (int y)" for x y
    using window_count_pad [OF assms that(2,1)] that(3) by (simp add: window_count_def)
  have "find_network_points c skeleton = Inr (?eps, ?ints)"
    by (rule find_network_points_closed [OF assms])
  moreover have "\<forall>x y. (x, y) \<in> set ?eps \<longleftrightarrow>
      foreground skeleton x y \<and> neighbor_count skeleton x y = 1"
    unfolding eps by simp
  moreover have "\<forall>x y. (x, y) \<in> set ?ints \<longleftrightarrow>
      foreground skeleton x y \<and> 2 < neighbor_count skeleton x y"
    unfolding ints by simp
  moreover have "set ?eps \<inter> set ?ints = {}"
    unfolding eps ints by auto
  ultimately show ?thesis using count by blast
qed

theorem classification_by_neighbor_count_witness:
  "is_raster (height tee_cleaner) (width tee_cleaner) tee_skeleton \<and>
   foreground tee_skeleton 4 2 \<and> neighbor_count tee_skeleton 4 2 = 1 \<and>
   (\<exists>endpoints intersections.
      find_network_points tee_cleaner tee_skeleton = Inr (endpoints, intersections) \<and>
      (4, 2) \<in> set endpoints \<and> (4, 2) \<notin> set intersections)"
proof -
  have r: "is_raster (height tee_cleaner) (width tee_cleaner) tee_skeleton"
    by (simp add: is_raster_def tee_cleaner_def tee_skeleton_def)
  have fg: "foreground tee_skeleton 4 2"
    by (simp add: foreground_def tee_skeleton_def)
  have n: "neighbor_count tee_skeleton 4 2 = 1"
    by (simp add: neighbor_count_def surrounding_def foreground_def tee_skeleton_def)
  from classification_by_neighbor_count [OF r] obtain endpoints intersections where
    "find_network_points tee_cleaner tee_skeleton = Inr (endpoints, intersections)"
    "\<forall>x y. (x, y) \<in> set endpoints \<longleftrightarrow>
       foreground tee_skeleton x y \<and> neighbor_count tee_skeleton x y = 1"
    "set endpoints \<inter> set intersections = {}"
    by blast
  with r fg n show ?thesis by blast
qed

text \<open>
  \<^bold>\<open>C2.\<close> The scenario as stated does not hold. On the 10 by 10 raster with the line from
  \<open>(1, 5)\<close> to \<open>(8, 5)\<close> and the stub from \<open>(4, 5)\<close> to \<open>(4, 2)\<close>, classification returns
  four intersections, \<open>(4, 4)\<close>, \<open>(3, 5)\<close>, \<open>(4, 5)\<close> and \<open>(5, 5)\<close>: each of them has more than
  two foreground cells among its eight neighbours. And with \<^verbatim>\<open>min_road_length = 4\<close> and a
  search that returns the routes along the skeleton, the pixel \<open>(1, 5)\<close> of the main line is
  background in the cleaned array.
\<close>

theorem tee_scenario_counterexample:
  "find_network_points tee_cleaner tee_skeleton =
     Inr ([(4, 2), (1, 5), (8, 5)], [(4, 4), (3, 5), (4, 5), (5, 5)]) \<and>
   \<not> foreground
     (heap (snd (remove_spurious_roads tee_cleaner walking_router 0
        [(4, 2), (1, 5), (8, 5)] [(4, 4), (3, 5), (4, 5), (5, 5)] tee_state)) !
      fst (remove_spurious_roads tee_cleaner walking_router 0
        [(4, 2), (1, 5), (8, 5)] [(4, 4), (3, 5), (4, 5), (5, 5)] tee_state)) 1 5"
proof -
  let ?R = "remove_spurious_roads tee_cleaner walking_router 0
        [(4, 2), (1, 5), (8, 5)] [(4, 4), (3, 5), (4, 5), (5, 5)] tee_state"
  have "heap (snd ?R) ! fst ?R = tee_cleaned"
    by (simp only: remove_spurious_roads_value [OF tee_skeleton_at(2) prod.collapse [symmetric, of ?R]]
        tee_skeleton_at(1) tee_pruned_walking)
  moreover have "\<not> foreground tee_cleaned 1 5"
    by (simp add: foreground_def tee_cleaned_def)
  ultimately show ?thesis using tee_points by simp
qed

text \<open>
  \<^bold>\<open>C2, as the code has it.\<close> Classification of that raster returns the endpoints
  \<open>(4, 2)\<close>, \<open>(1, 5)\<close>, \<open>(8, 5)\<close> and the intersections \<open>(4, 4)\<close>, \<open>(3, 5)\<close>, \<open>(4, 5)\<close>,
  \<open>(5, 5)\<close>. Pruning with \<^verbatim>\<open>min_road_length = 4\<close> calls \<^verbatim>\<open>get_path\<close> for all three endpoints,
  each with its closest intersection: \<open>(4, 4)\<close>, \<open>(3, 5)\<close> and \<open>(5, 5)\<close>. If for these three
  searches the routine returns a route of cost zero (one that stays on the skeleton, moves
  to a neighbouring cell at each step and visits no cell twice), then the cleaned array has
  the single foreground pixel \<open>(4, 5)\<close>: the stub \<open>(4, 2)\<close>, \<open>(4, 3)\<close>, \<open>(4, 4)\<close> is cleared, and
  so are \<open>(1, 5)\<close> to \<open>(3, 5)\<close> and \<open>(5, 5)\<close> to \<open>(8, 5)\<close> of the main line. The skeleton itself is
  unchanged.
\<close>

theorem tee_scenario:
  assumes "\<forall>q\<in>set [((2, 4), (4, 4)), ((5, 1), (5, 3)), ((5, 8), (5, 5))].
             \<exists>p. r (map (map Not) tee_skeleton) (fst q) (snd q) = Inr p \<and>
                 free_route (map (map Not) tee_skeleton) (fst q) (snd q) p"
      and "remove_spurious_roads tee_cleaner r 0
             [(4, 2), (1, 5), (8, 5)] [(4, 4), (3, 5), (4, 5), (5, 5)] tee_state = (cleaned, s')"
  shows "find_network_points tee_cleaner tee_skeleton =
           Inr ([(4, 2), (1, 5), (8, 5)], [(4, 4), (3, 5), (4, 5), (5, 5)]) \<and>
         get_path_calls (trace s') = [(4, 2), (1, 5), (8, 5)] \<and>
         heap s' ! cleaned = tee_cleaned \<and>
         heap s' ! 0 = tee_skeleton"
proof -
  let ?cost = "map (map Not) tee_skeleton"
  let ?ints = "[(4, 4), (3, 5), (4, 5), (5, 5)]::point list"
  from assms(1) obtain p1 p2 p3 where
    p1: "r ?cost (2, 4) (4, 4) = Inr p1" "free_route ?cost (2, 4) (4, 4) p1" and
    p2: "r ?cost (5, 1) (5, 3) = Inr p2" "free_route ?cost (5, 1) (5, 3) p2" and
    p3: "r ?cost (5, 8) (5, 5) = Inr p3" "free_route ?cost (5, 8) (5, 5) p3"
    by auto
  have routes: "route_for tee_cleaner r tee_skeleton ?ints (4, 2) = [(2, 4), (3, 4), (4, 4)]"
    "route_for tee_cleaner r tee_skeleton ?ints (1, 5) = [(5, 1), (5, 2), (5, 3)]"
    "route_for tee_cleaner r tee_skeleton ?ints (8, 5) = [(5, 8), (5, 7), (5, 6), (5, 5)]"
    using p1(1) p2(1) p3(1) tee_route_stub [OF p1(2)] tee_route_left [OF p2(2)]
      tee_route_right [OF p3(2)]
    by (simp_all add: route_for_def tee_chosen)
  have "pruned tee_cleaner r tee_skeleton ?ints [(4, 2), (1, 5), (8, 5)] tee_skeleton = tee_cleaned"
    by (simp add: routes tee_erased del: erase_cells.simps)
  then have "value": "heap s' ! cleaned = tee_cleaned"
    by (simp only: remove_spurious_roads_value [OF tee_skeleton_at(2) assms(2)] tee_skeleton_at(1))
  have "get_path_calls (trace s') = get_path_calls (trace tee_state) @
      filter (\<lambda>e. chosen tee_cleaner ?ints e \<noteq> None) [(4, 2), (1, 5), (8, 5)]"
    using assms(2) by (rule remove_spurious_roads_calls)
  then have calls: "get_path_calls (trace s') = [(4, 2), (1, 5), (8, 5)]"
    by (simp add: tee_chosen tee_state_def)
  from remove_spurious_roads_only_erased [OF tee_skeleton_at(2) assms(2)]
  have "heap s' ! 0 = heap (tee_state\<lparr>heap := heap tee_state @ [heap tee_state ! 0]\<rparr>) ! 0"
    by (simp add: only_erased_def tee_state_def)
  then have same: "heap s' ! 0 = tee_skeleton" by (simp add: tee_state_def)
  from tee_points calls "value" same show ?thesis by simp
qed

theorem tee_scenario_witness:
  "walking_router (map (map Not) tee_skeleton) (2, 4) (4, 4) = Inr [(2, 4), (3, 4), (4, 4)] \<and>
   free_route (map (map Not) tee_skeleton) (2, 4) (4, 4) [(2, 4), (3, 4), (4, 4)] \<and>
   walking_router (map (map Not) tee_skeleton) (5, 1) (5, 3) = Inr [(5, 1), (5, 2), (5, 3)] \<and>
   free_route (map (map Not) tee_skeleton) (5, 1) (5, 3) [(5, 1), (5, 2), (5, 3)] \<and>
   walking_router (map (map Not) tee_skeleton) (5, 8) (5, 5) = Inr [(5, 8), (5, 7), (5, 6), (5, 5)] \<and>
   free_route (map (map Not) tee_skeleton) (5, 8) (5, 5) [(5, 8), (5, 7), (5, 6), (5, 5)] \<and>
   heap (snd (remove_spurious_roads tee_cleaner walking_router 0
        [(4, 2), (1, 5), (8, 5)] [(4, 4), (3, 5), (4, 5), (5, 5)] tee_state)) !
      fst (remove_spurious_roads tee_cleaner walking_router 0
        [(4, 2), (1, 5), (8, 5)] [(4, 4), (3, 5), (4, 5), (5, 5)] tee_state) = tee_cleaned"
proof -
  let ?R = "remove_spurious_roads tee_cleaner walking_router 0
        [(4, 2), (1, 5), (8, 5)] [(4, 4), (3, 5), (4, 5), (5, 5)] tee_state"
  have h: "\<forall>q\<in>set [((2, 4), (4, 4)), ((5, 1), (5, 3)), ((5, 8), (5, 5))].
      \<exists>p. walking_router (map (map Not) tee_skeleton) (fst q) (snd q) = Inr p \<and>
          free_route (map (map Not) tee_skeleton) (fst q) (snd q) p"
    by (simp add: tee_walks tee_walks_free)
  from tee_scenario [where r = walking_router, OF h prod.collapse [symmetric, of ?R]]
  have "heap (snd ?R) ! fst ?R = tee_cleaned" by blast
  then show ?thesis by (simp add: tee_walks tee_walks_free)
qed

text \<open>
  \<^bold>\<open>C3.\<close> When the list of endpoints or the list of intersections is empty, the cleaned
  array that pruning returns is equal to the skeleton, the skeleton is as it was, and
  nothing was traced: no call of \<^verbatim>\<open>get_path\<close>, no assignment, no warning.
\<close>

theorem pruning_without_endpoints_or_intersections:
  assumes "skeleton < length (heap s)"
      and "eps = [] \<or> ints = []"
      and "remove_spurious_roads c r skeleton eps ints s = (cleaned, s')"
  shows "heap s' ! cleaned = heap s ! skeleton \<and> heap s' ! skeleton = heap s ! skeleton \<and>
         trace s' = trace s"
proof -
  let ?s1 = "s\<lparr>heap := heap s @ [heap s ! skeleton]\<rparr>"
  from assms(3) have c: "cleaned = length (heap s)"
    and s': "s' = prune_endpoints c r skeleton ints cleaned eps ?s1"
    by (auto simp: remove_spurious_roads_def np_copy_def)
  from assms(2) have "s' = ?s1"
    unfolding s' by (auto simp: prune_endpoints_no_intersections)
  with assms(1) show ?thesis by (simp add: c nth_append)
qed

theorem pruning_without_endpoints_or_intersections_witness:
  "(0::nat) < length (heap tee_state) \<and> ([(4, 2), (1, 5)] = [] \<or> ([]::point list) = []) \<and>
   heap (snd (remove_spurious_roads tee_cleaner walking_router 0 [(4, 2), (1, 5)] [] tee_state)) !
     fst (remove_spurious_roads tee_cleaner walking_router 0 [(4, 2), (1, 5)] [] tee_state) =
   tee_skeleton"
proof -
  have h: "0 < length (heap tee_state)" by (simp add: tee_state_def)
  have e: "[(4, 2), (1, 5)] = [] \<or> ([]::point list) = []" by simp
  from pruning_without_endpoints_or_intersections [OF h e, OF prod.collapse [symmetric]] h
  show ?thesis by (simp add: tee_state_def)
qed

text \<open>
  \<^bold>\<open>C6.\<close> Pruning returns the address of an array that did not exist before the call, so
  one other than the skeleton; every array that existed before the call, the skeleton among
  them, has the value it had; and the returned array has as many rows as the skeleton and
  rows of the same lengths. This holds for every search routine and all lists of endpoints
  and intersections.
\<close>

theorem pruning_allocates_and_preserves_input:
  assumes "skeleton < length (heap s)"
      and "remove_spurious_roads c r skeleton eps ints s = (cleaned, s')"
  shows "cleaned = length (heap s) \<and> cleaned \<noteq> skeleton \<and> cleaned < length (heap s') \<and>
         (\<forall>a < length (heap s). heap s' ! a = heap s ! a) \<and>
         length (heap s' ! cleaned) = length (heap s ! skeleton) \<and>
         map length (heap s' ! cleaned) = map length (heap s ! skeleton)"
proof -
  let ?s1 = "s\<lparr>heap := heap s @ [heap s ! skeleton]\<rparr>"
  note c = remove_spurious_roads_only_erased(1) [OF assms]
  note oe = remove_spurious_roads_only_erased(2) [OF assms]
  have len: "length (heap s) < length (heap s')"
    using oe by (simp add: only_erased_def)
  have old: "heap s' ! a = heap s ! a" if "a < length (heap s)" for a
  proof -
    from that have "a < length (heap ?s1)" "a \<noteq> cleaned" by (simp_all add: c)
    with oe have "heap s' ! a = heap ?s1 ! a" by (simp add: only_erased_def)
    with that show ?thesis by (simp add: nth_append)
  qed
  have shape: "map length (heap s' ! cleaned) = map length (heap s ! skeleton)"
    using oe by (simp add: only_erased_def c)
  then have "length (map length (heap s' ! cleaned)) = length (map length (heap s ! skeleton))"
    by (rule arg_cong)
  then have "length (heap s' ! cleaned) = length (heap s ! skeleton)" by simp
  with c assms(1) len old shape show ?thesis by simp
qed

theorem pruning_allocates_and_preserves_input_witness:
  "(0::nat) < length (heap tee_state) \<and>
   fst (remove_spurious_roads tee_cleaner walking_router 0 [(4, 2), (1, 5), (8, 5)] [(4, 4), (3, 5), (4, 5), (5, 5)] tee_state) = 1 \<and>
   heap (snd (remove_spurious_roads tee_cleaner walking_router 0 [(4, 2), (1, 5), (8, 5)] [(4, 4), (3, 5), (4, 5), (5, 5)] tee_state)) ! 0 =
     tee_skeleton \<and>
   length (heap (snd (remove_spurious_roads tee_cleaner walking_router 0 [(4, 2), (1, 5), (8, 5)] [(4, 4), (3, 5), (4, 5), (5, 5)] tee_state)) !
     fst (remove_spurious_roads tee_cleaner walking_router 0 [(4, 2), (1, 5), (8, 5)] [(4, 4), (3, 5), (4, 5), (5, 5)] tee_state)) = 10"
proof -
  let ?R = "remove_spurious_roads tee_cleaner walking_router 0 [(4, 2), (1, 5), (8, 5)] [(4, 4), (3, 5), (4, 5), (5, 5)] tee_state"
  have h: "0 < length (heap tee_state)" by (simp add: tee_state_def)
  have sk: "heap tee_state ! 0 = tee_skeleton" by (simp add: tee_state_def)
  have len: "length tee_skeleton = 10" by (simp add: tee_skeleton_def)
  note t = pruning_allocates_and_preserves_input [OF h prod.collapse [symmetric, of ?R]]
  from t have "fst ?R = 1" by (simp add: tee_state_def)
  moreover from t h have "heap (snd ?R) ! 0 = heap tee_state ! 0" by blast
  moreover from t have "length (heap (snd ?R) ! fst ?R) = length (heap tee_state ! 0)" by blast
  ultimately show ?thesis using h sk len by simp
qed

text \<open>
  \<^bold>\<open>C9.\<close> Every foreground pixel of the cleaned array is a foreground pixel of the skeleton
  that pruning was given.
\<close>

theorem cleaned_foreground_subset:
  assumes "skeleton < length (heap s)"
      and "remove_spurious_roads c r skeleton eps ints s = (cleaned, s')"
      and "foreground (heap s' ! cleaned) x y"
  shows "foreground (heap s ! skeleton) x y"
proof -
  note c = remove_spurious_roads_only_erased(1) [OF assms(1,2)]
  note oe = remove_spurious_roads_only_erased(2) [OF assms(1,2)]
  from oe assms(3) have "foreground (heap (s\<lparr>heap := heap s @ [heap s ! skeleton]\<rparr>) ! cleaned) x y"
    unfolding only_erased_def by blast
  then show ?thesis by (simp add: c)
qed

theorem cleaned_foreground_subset_witness:
  "(0::nat) < length (heap tee_state) \<and>
   foreground
     (heap (snd (remove_spurious_roads tee_cleaner walking_router 0
        [(4, 2), (1, 5), (8, 5)] [(4, 4), (3, 5), (4, 5), (5, 5)] tee_state)) !
      fst (remove_spurious_roads tee_cleaner walking_router 0
        [(4, 2), (1, 5), (8, 5)] [(4, 4), (3, 5), (4, 5), (5, 5)] tee_state)) 4 5 \<and>
   foreground tee_skeleton 4 5"
proof -
  let ?R = "remove_spurious_roads tee_cleaner walking_router 0
        [(4, 2), (1, 5), (8, 5)] [(4, 4), (3, 5), (4, 5), (5, 5)] tee_state"
  have h: "0 < length (heap tee_state)" by (simp add: tee_state_def)
  have "heap (snd ?R) ! fst ?R = tee_cleaned"
    by (simp only: remove_spurious_roads_value [OF h prod.collapse [symmetric, of ?R]]
        tee_skeleton_at(1) tee_pruned_walking)
  moreover have "foreground tee_cleaned 4 5"
    by (simp add: foreground_def tee_cleaned_def)
  ultimately have fg: "foreground (heap (snd ?R) ! fst ?R) 4 5" by simp
  from cleaned_foreground_subset [OF h prod.collapse [symmetric] fg]
  have "foreground (heap tee_state ! 0) 4 5" .
  with h fg show ?thesis by (simp add: tee_state_def)
qed

text \<open>
  \<^bold>\<open>C4.\<close> For one skeleton, one search routine and the same lists of endpoints and
  intersections, run from the same state with thresholds \<open>t1 \<le> t2\<close>: the endpoints for
  which \<^verbatim>\<open>get_path\<close> is called under \<open>t1\<close> are among those for which it is called under
  \<open>t2\<close>, and they are no more in number.
\<close>

theorem threshold_monotone:
  assumes "t1 \<le> t2"
      and "remove_spurious_roads (c\<lparr>min_road_length := t1\<rparr>) r skeleton eps ints s = (cleaned1, s1)"
      and "remove_spurious_roads (c\<lparr>min_road_length := t2\<rparr>) r skeleton eps ints s = (cleaned2, s2)"
  shows "\<exists>p1 p2. get_path_calls (trace s1) = get_path_calls (trace s) @ p1 \<and>
           get_path_calls (trace s2) = get_path_calls (trace s) @ p2 \<and>
           set p1 \<subseteq> set p2 \<and> length p1 \<le> length p2 \<and> set p2 \<subseteq> set eps"
proof -
  let ?c1 = "c\<lparr>min_road_length := t1\<rparr>" and ?c2 = "c\<lparr>min_road_length := t2\<rparr>"
  let ?p1 = "filter (\<lambda>e. chosen ?c1 ints e \<noteq> None) eps"
  let ?p2 = "filter (\<lambda>e. chosen ?c2 ints e \<noteq> None) eps"
  have mono: "chosen ?c2 ints e \<noteq> None" if "chosen ?c1 ints e \<noteq> None" for e
  proof -
    from that obtain ci where "chosen ?c1 ints e = Some ci" by blast
    with assms(1) have "chosen ?c2 ints e = Some ci"
      by (intro chosen_mono [of ?c1 ?c2]) simp_all
    then show ?thesis by simp
  qed
  have "set ?p1 \<subseteq> set ?p2" using mono by auto
  moreover have "length ?p1 \<le> length ?p2" using mono by (rule length_filter_mono)
  moreover have "set ?p2 \<subseteq> set eps" by auto
  moreover note remove_spurious_roads_calls [OF assms(2)] remove_spurious_roads_calls [OF assms(3)]
  ultimately show ?thesis by blast
qed

theorem threshold_monotone_witness:
  "(2::real) \<le> 5 \<and>
   get_path_calls (trace (snd (remove_spurious_roads (bar_cleaner\<lparr>min_road_length := 2\<rparr>)
     overshooting_router 0 [(0, 0)] [(2, 0)] bar_state))) = [] \<and>
   get_path_calls (trace (snd (remove_spurious_roads (bar_cleaner\<lparr>min_road_length := 5\<rparr>)
     overshooting_router 0 [(0, 0)] [(2, 0)] bar_state))) = [(0, 0)] \<and>
   length (get_path_calls (trace (snd (remove_spurious_roads (bar_cleaner\<lparr>min_road_length := 2\<rparr>)
     overshooting_router 0 [(0, 0)] [(2, 0)] bar_state)))) \<le>
   length (get_path_calls (trace (snd (remove_spurious_roads (bar_cleaner\<lparr>min_road_length := 5\<rparr>)
     overshooting_router 0 [(0, 0)] [(2, 0)] bar_state))))"
proof -
  let ?R1 = "remove_spurious_roads (bar_cleaner\<lparr>min_road_length := 2\<rparr>)
     overshooting_router 0 [(0, 0)] [(2, 0)] bar_state"
  let ?R2 = "remove_spurious_roads (bar_cleaner\<lparr>min_road_length := 5\<rparr>)
     overshooting_router 0 [(0, 0)] [(2, 0)] bar_state"
  have le: "(2::real) \<le> 5" by simp
  have c5: "bar_cleaner\<lparr>min_road_length := 5\<rparr> = bar_cleaner" by (simp add: bar_cleaner_def)
  have two: "get_path_calls (trace (snd ?R2)) = [(0, 0)]"
    by (simp add: c5 bar_run)
  from threshold_monotone [OF le prod.collapse [symmetric, of ?R1] prod.collapse [symmetric, of ?R2]]
  obtain p1 p2 where p: "get_path_calls (trace (snd ?R1)) = get_path_calls (trace bar_state) @ p1"
    "get_path_calls (trace (snd ?R2)) = get_path_calls (trace bar_state) @ p2"
    "set p1 \<subseteq> set p2" "length p1 \<le> length p2" "set p2 \<subseteq> set [(0, 0)]"
    by blast
  have one: "get_path_calls (trace (snd ?R1)) = []"
    by (simp add: remove_spurious_roads_def np_copy_def bar_state_def prune_endpoint_chosen
        chosen_def less_dist_def distance_def bar_cleaner_def)
  from p(1,2,4) have "length (get_path_calls (trace (snd ?R1))) \<le> length (get_path_calls (trace (snd ?R2)))"
    by simp
  with le one two show ?thesis by simp
qed





text \<open>
  \<^bold>\<open>C7.\<close> On a skeleton whose shape is the one stored in the cleaner: classification
  returns, and every coordinate in its two lists has \<open>0 \<le> x < width\<close> and
  \<open>0 \<le> y < height\<close>; every assignment that pruning performs, for any search routine and any
  lists of endpoints and intersections, is to the cleaned array at an index pair within
  \<open>[0, height) \<times> [0, width)\<close>, which is a cell of that array; and the loop over a path
  passes over an index pair outside that range without any effect.
\<close>

theorem coordinates_and_writes_in_bounds:
  assumes "is_raster (height c) (width c) (heap s ! skeleton)"
      and "skeleton < length (heap s)"
      and "remove_spurious_roads c r skeleton eps ints s = (cleaned, s')"
  shows "(\<exists>endpoints intersections.
            find_network_points c (heap s ! skeleton) = Inr (endpoints, intersections) \<and>
            (\<forall>p\<in>set endpoints \<union> set intersections.
               0 \<le> fst p \<and> fst p < int (width c) \<and> 0 \<le> snd p \<and> snd p < int (height c))) \<and>
         (\<exists>new. trace s' = trace s @ new \<and>
            (\<forall>a py px. Assign a py px \<in> set new \<longrightarrow>
               a = cleaned \<and> 0 \<le> py \<and> py < int (height c) \<and> 0 \<le> px \<and> px < int (width c) \<and>
               nat py < length (heap s' ! cleaned) \<and>
               nat px < length (heap s' ! cleaned ! nat py))) \<and>
         (\<forall>py px path t.
            \<not> (0 \<le> py \<and> py < int (height c) \<and> 0 \<le> px \<and> px < int (width c)) \<longrightarrow>
            erase_path c cleaned ((py, px) # path) t = erase_path c cleaned path t)"
proof -
  from remove_spurious_roads_only_erased [OF assms(2,3)]
  have shape: "map length (heap s' ! cleaned) = map length (heap s ! skeleton)"
    by (simp add: only_erased_def)
  then have "length (map length (heap s' ! cleaned)) = length (map length (heap s ! skeleton))"
    by (rule arg_cong)
  then have rows: "length (heap s' ! cleaned) = height c"
    using assms(1) by (simp add: is_raster_def)
  have cols: "length (heap s' ! cleaned ! y) = width c" if "y < height c" for y
  proof -
    have "map length (heap s' ! cleaned) ! y = map length (heap s ! skeleton) ! y"
      by (simp only: shape)
    then have "length (heap s' ! cleaned ! y) = length (heap s ! skeleton ! y)"
      using that rows assms(1) by (simp add: is_raster_def)
    with is_raster_nth [OF assms(1) that] show ?thesis by simp
  qed
  from remove_spurious_roads_trace [OF assms(3)] obtain new where
    new: "trace s' = trace s @ new"
    "\<forall>a py px. Assign a py px \<in> set new \<longrightarrow>
        a = cleaned \<and> 0 \<le> py \<and> py < int (height c) \<and> 0 \<le> px \<and> px < int (width c)"
    by blast
  have "a = cleaned \<and> 0 \<le> py \<and> py < int (height c) \<and> 0 \<le> px \<and> px < int (width c) \<and>
      nat py < length (heap s' ! cleaned) \<and> nat px < length (heap s' ! cleaned ! nat py)"
    if "Assign a py px \<in> set new" for a py px
  proof -
    from new(2) that have b: "a = cleaned" "0 \<le> py" "py < int (height c)" "0 \<le> px" "px < int (width c)"
      by blast+
    then have "nat py < height c" "nat px < width c" by simp_all
    with b rows cols [of "nat py"] show ?thesis by simp
  qed
  with new(1) have "\<exists>new. trace s' = trace s @ new \<and>
      (\<forall>a py px. Assign a py px \<in> set new \<longrightarrow>
         a = cleaned \<and> 0 \<le> py \<and> py < int (height c) \<and> 0 \<le> px \<and> px < int (width c) \<and>
         nat py < length (heap s' ! cleaned) \<and> nat px < length (heap s' ! cleaned ! nat py))"
    by blast
  moreover have "\<forall>py px path t.
      \<not> (0 \<le> py \<and> py < int (height c) \<and> 0 \<le> px \<and> px < int (width c)) \<longrightarrow>
      erase_path c cleaned ((py, px) # path) t = erase_path c cleaned path t"
    by auto
  ultimately show ?thesis using find_network_points_in_raster [OF assms(1)] by blast
qed

theorem coordinates_and_writes_in_bounds_witness:
  "is_raster (height bar_cleaner) (width bar_cleaner) (heap bar_state ! 0) \<and>
   0 < length (heap bar_state) \<and>
   find_network_points bar_cleaner (heap bar_state ! 0) = Inr ([(0, 0), (2, 0)], []) \<and>
   (2::int) < int (width bar_cleaner) \<and>
   trace (snd (remove_spurious_roads bar_cleaner overshooting_router 0 [(0, 0)] [(2, 0)] bar_state)) =
     trace bar_state @ [GetPath (0, 0) (2, 0), Assign 1 0 0, Assign 1 0 1, Assign 1 0 2] \<and>
   nat 2 < length (heap (snd (remove_spurious_roads bar_cleaner overshooting_router 0 [(0, 0)] [(2, 0)]
     bar_state)) ! 1 ! nat 0) \<and>
   erase_path bar_cleaner 1 [(0, 3)] bar_state = erase_path bar_cleaner 1 [] bar_state"
proof -
  let ?R = "remove_spurious_roads bar_cleaner overshooting_router 0 [(0, 0)] [(2, 0)] bar_state"
  have sk: "heap bar_state ! 0 = bar_skeleton" by (simp add: bar_state_def)
  have r: "is_raster (height bar_cleaner) (width bar_cleaner) (heap bar_state ! 0)"
    by (simp add: is_raster_def bar_cleaner_def bar_skeleton_def bar_state_def)
  have h: "0 < length (heap bar_state)" by (simp add: bar_state_def)
  have R: "?R = (1, snd ?R)" by (simp add: bar_run)
  note t = coordinates_and_writes_in_bounds [OF r h R]
  from t obtain endpoints intersections where
    fnp: "find_network_points bar_cleaner (heap bar_state ! 0) = Inr (endpoints, intersections)"
    and inb: "\<forall>p\<in>set endpoints \<union> set intersections.
       0 \<le> fst p \<and> fst p < int (width bar_cleaner) \<and> 0 \<le> snd p \<and> snd p < int (height bar_cleaner)"
    by blast
  from fnp have "endpoints = [(0, 0), (2, 0)]" by (simp add: sk bar_points)
  with inb have w: "(2::int) < int (width bar_cleaner)" by simp
  from t obtain new where new: "trace (snd ?R) = trace bar_state @ new"
    "\<forall>a py px. Assign a py px \<in> set new \<longrightarrow>
       nat px < length (heap (snd ?R) ! 1 ! nat py)"
    by blast
  have tr: "trace (snd ?R) =
      trace bar_state @ [GetPath (0, 0) (2, 0), Assign 1 0 0, Assign 1 0 1, Assign 1 0 2]"
    unfolding bar_run by (simp add: bar_state_def)
  with new(1) have "new = [GetPath (0, 0) (2, 0), Assign 1 0 0, Assign 1 0 1, Assign 1 0 2]"
    by simp
  with new(2) have cell: "nat 2 < length (heap (snd ?R) ! 1 ! nat 0)" by simp
  from t have skip: "erase_path bar_cleaner 1 [(0, 3)] bar_state = erase_path bar_cleaner 1 [] bar_state"
    by (simp add: bar_cleaner_def)
  from r h fnp w tr cell skip show ?thesis by (simp add: sk bar_points)
qed




end
